theory Spec2Isabelle
  imports Complex_Main "HOL-Library.Word" "HOL-Library.Multiset" "HOL-Library.Log_Nat"
begin

section \<open>Machine integers\<close>

text \<open>
  The C++ type \<open>int\<close> of \<open>Kitchen.cpp\<close> is a 32-bit two's complement integer. It is
  modelled as a 32-bit word: \<open>+\<close> and \<open>-\<close> wrap around, \<open>sint\<close> reads the signed
  value, \<open><s\<close> and \<open>\<le>s\<close> are the signed comparisons. The sizes and counters that
  cannot exceed the number of stored items (the size of the bag, \<open>count\<close>,
  \<open>removed_count\<close>, the loop indices) are integers and natural numbers without a width.
\<close>

type_synonym int32 = "32 word"

section \<open>The dish value type (\<open>Dish.hpp\<close>)\<close>

text \<open>
  Modelled from the spec: \<open>Dish.hpp\<close> is included by \<open>Kitchen.hpp\<close> but is not among the
  sources. The spec (section 3) gives a dish a name, an ordered list of ingredient names, a
  preparation time, a price and a cuisine tag of a seven-valued enumeration; two dishes are
  equal iff every field is equal, which is the equality of the record. The trailing
  underscore of the C++ member names is dropped. The price, a \<open>double\<close> in the test
  driver, only takes part in equality and is modelled as a rational number; a NaN price,
  which is not equal to itself, is outside the model.
\<close>

datatype CuisineType = ITALIAN | MEXICAN | CHINESE | INDIAN | AMERICAN | FRENCH | OTHER

record Dish =
  name :: string
  ingredients :: "string list"
  prep_time :: int32
  price :: rat
  cuisine_type :: CuisineType

definition getIngredients :: "Dish \<Rightarrow> string list" where
  "getIngredients d = ingredients d"

definition getPrepTime :: "Dish \<Rightarrow> int32" where
  "getPrepTime d = prep_time d"

text \<open>
  Modelled from the spec: \<open>Dish::getCuisineType\<close> is the "cuisine-tag string rendering"
  of section 6, a total rendering of the enumeration to its seven labels.
\<close>

fun cuisine_label :: "CuisineType \<Rightarrow> string" where
  "cuisine_label ITALIAN = ''ITALIAN''"
| "cuisine_label MEXICAN = ''MEXICAN''"
| "cuisine_label CHINESE = ''CHINESE''"
| "cuisine_label INDIAN = ''INDIAN''"
| "cuisine_label AMERICAN = ''AMERICAN''"
| "cuisine_label FRENCH = ''FRENCH''"
| "cuisine_label OTHER = ''OTHER''"

definition getCuisineType :: "Dish \<Rightarrow> string" where
  "getCuisineType d = cuisine_label (cuisine_type d)"

section \<open>The container (\<open>ArrayBag.hpp\<close>)\<close>

text \<open>
  Modelled from the spec: \<open>ArrayBag.hpp\<close>, the base class of \<open>Kitchen\<close>, is not among
  the sources. Section 6 of the spec gives its primitives: \<open>add\<close> fails at capacity,
  \<open>remove\<close> removes one value-equal item and fails if there is none, \<open>contains\<close>,
  \<open>clear\<close> and the size. \<open>Kitchen.cpp\<close> reads the protected array \<open>items_[i]\<close>, so
  the bag is the list of its stored items, \<open>items_[0]\<close> first; its length is
  \<open>item_count_\<close>. An added item takes the first free slot. The spec leaves open which
  slot a removal frees: the model is the array bag's, the last stored item moves into the
  slot of the first item equal to the argument. The fixed capacity is not given by the
  spec and is a parameter.
\<close>

definition ArrayBag_getCurrentSize :: "'a list \<Rightarrow> int" where
  "ArrayBag_getCurrentSize xs = int (length xs)"

fun ArrayBag_getIndexOf :: "'a \<Rightarrow> 'a list \<Rightarrow> nat option" where
  "ArrayBag_getIndexOf x [] = None"
| "ArrayBag_getIndexOf x (y # ys) =
     (if y = x then Some 0 else map_option Suc (ArrayBag_getIndexOf x ys))"

definition ArrayBag_contains :: "'a list \<Rightarrow> 'a \<Rightarrow> bool" where
  "ArrayBag_contains xs x = (ArrayBag_getIndexOf x xs \<noteq> None)"

definition ArrayBag_add :: "nat \<Rightarrow> 'a \<Rightarrow> 'a list \<Rightarrow> bool \<times> 'a list" where
  "ArrayBag_add capacity x xs =
     (if length xs < capacity then (True, xs @ [x]) else (False, xs))"

definition ArrayBag_remove :: "'a \<Rightarrow> 'a list \<Rightarrow> bool \<times> 'a list" where
  "ArrayBag_remove x xs =
     (case ArrayBag_getIndexOf x xs of
        None \<Rightarrow> (False, xs)
      | Some found_index \<Rightarrow> (True, butlast (xs[found_index := last xs])))"

definition ArrayBag_clear :: "'a list \<Rightarrow> 'a list" where
  "ArrayBag_clear xs = []"

section \<open>Doubles and their output\<close>

text \<open>
  A \<open>double\<close> is modelled by the rational number it denotes. An operation on doubles is
  the exact operation followed by \<open>to_double\<close>, the rounding of IEEE 754 binary64: to the
  nearest number with a 53-bit significand, ties to the even significand. The exponent
  range, infinities and NaN are not modelled: the values \<open>Kitchen.cpp\<close> computes from
  two \<open>int\<close>s and the constant 100 lie between \<open>2^-32\<close> and \<open>2^46\<close> in magnitude, or
  are zero. Nor is the sign of zero: a negative zero only comes from a negative
  \<open>countelaborate\<close>. The conversion of an \<open>int\<close> to \<open>double\<close> is exact and is
  \<open>of_int\<close>.
\<close>

definition round_half_even :: "rat \<Rightarrow> int" where
  "round_half_even x =
     (let f = \<lfloor>x\<rfloor>; r = x - of_int f
      in if r < 1 / 2 then f else if 1 / 2 < r then f + 1 else if even f then f else f + 1)"

text \<open>The binary exponent of a non-zero rational: \<open>2^e \<le> |x| < 2^(e+1)\<close>.\<close>

definition exponent2 :: "rat \<Rightarrow> int" where
  "exponent2 x =
     (case quotient_of \<bar>x\<bar> of
        (p, q) \<Rightarrow> let d = bitlen p - bitlen q in if 2 powi d \<le> \<bar>x\<bar> then d else d - 1)"

definition to_double :: "rat \<Rightarrow> rat" where
  "to_double x =
     (if x = 0 then 0
      else let ulp = 2 powi (exponent2 x - 52)
           in of_int (round_half_even (x / ulp)) * ulp)"

text \<open>\<open>std::round\<close> of \<open><cmath>\<close>: to the nearest integer, halves away from zero.\<close>

definition std_round :: "rat \<Rightarrow> int" where
  "std_round x = (if 0 \<le> x then \<lfloor>x + 1 / 2\<rfloor> else - \<lfloor>- x + 1 / 2\<rfloor>)"


text \<open>
  \<open>operator<<\<close> of \<open>std::cout\<close>, on a stream that is otherwise in its default format
  state: an integer in decimal; a double under \<open>std::fixed\<close> and
  \<open>std::setprecision(2)\<close>, which is the decimal nearest to the double's value with two
  digits after the point; \<open>std::endl\<close>, a line feed.
\<close>

definition digit_char :: "nat \<Rightarrow> char" where
  "digit_char d = char_of (48 + d)"

function show_nat :: "nat \<Rightarrow> string" where
  "show_nat n = (if n < 10 then [digit_char n] else show_nat (n div 10) @ [digit_char (n mod 10)])"
  by pat_completeness auto
termination
  by (relation "measure id") auto

declare show_nat.simps [simp del]

definition show_int :: "int \<Rightarrow> string" where
  "show_int i = (if i < 0 then ''-'' @ show_nat (nat (- i)) else show_nat (nat i))"

definition show_fixed2 :: "rat \<Rightarrow> string" where
  "show_fixed2 x =
     (let c = nat (round_half_even (\<bar>x\<bar> * 100))
      in (if x < 0 then ''-'' else []) @ show_nat (c div 100) @ ''.'' @
         [digit_char (c mod 100 div 10), digit_char (c mod 10)])"

definition endl :: string where
  "endl = [CHR 0x0A]"

section \<open>The kitchen (\<open>Kitchen.hpp\<close>, \<open>Kitchen.cpp\<close>)\<close>

text \<open>
  A \<open>Kitchen\<close> is an \<open>ArrayBag<Dish>\<close> with two \<open>int\<close> members. Every member
  function takes the kitchen and returns its result with the kitchen it leaves.
\<close>

record Kitchen =
  items :: "Dish list"
  totalprep_time :: int32
  countelaborate :: int32

text \<open>\<open>Kitchen::Kitchen()\<close>: an empty bag, both members 0.\<close>

definition Kitchen_new :: Kitchen where
  "Kitchen_new = \<lparr>items = [], totalprep_time = 0, countelaborate = 0\<rparr>"

definition newOrder :: "nat \<Rightarrow> Dish \<Rightarrow> Kitchen \<Rightarrow> bool \<times> Kitchen" where
  "newOrder capacity new_dish k =
     (if ArrayBag_contains (items k) new_dish then (False, k)
      else
        (case ArrayBag_add capacity new_dish (items k) of
           (added_successfully, items') \<Rightarrow>
             if added_successfully then
               (True,
                k\<lparr>items := items',
                  totalprep_time := totalprep_time k + getPrepTime new_dish,
                  countelaborate :=
                    (if 5 \<le> length (getIngredients new_dish) \<and> 60 \<le>s getPrepTime new_dish
                     then countelaborate k + 1 else countelaborate k)\<rparr>)
             else (False, k\<lparr>items := items'\<rparr>)))"

definition serveDish :: "Dish \<Rightarrow> Kitchen \<Rightarrow> bool \<times> Kitchen" where
  "serveDish dish k =
     (if \<not> ArrayBag_contains (items k) dish then (False, k)
      else
        (case ArrayBag_remove dish (items k) of
           (removed_successfully, items') \<Rightarrow>
             if removed_successfully then
               (True,
                k\<lparr>items := items',
                  totalprep_time := totalprep_time k - getPrepTime dish,
                  countelaborate :=
                    (if 5 \<le> length (getIngredients dish) \<and> 60 \<le>s getPrepTime dish
                     then countelaborate k - 1 else countelaborate k)\<rparr>)
             else (False, k\<lparr>items := items'\<rparr>)))"

definition getPrepTimeSum :: "Kitchen \<Rightarrow> int32" where
  "getPrepTimeSum k = totalprep_time k"

definition elaborateDishCount :: "Kitchen \<Rightarrow> int32" where
  "elaborateDishCount k = countelaborate k"

text \<open>
  \<open>calculateAvgPrepTime\<close>: \<open>static_cast<double>(totalprep_time_) / dish_count\<close> is one
  division of doubles; the \<open>double\<close> that \<open>std::round\<close> returns is converted to the
  \<open>int\<close> the function returns.
\<close>

definition calculateAvgPrepTime :: "Kitchen \<Rightarrow> int32" where
  "calculateAvgPrepTime k =
     (let dish_count = ArrayBag_getCurrentSize (items k)
      in if dish_count = 0 then 0
         else
           let avg_prep_time = to_double (of_int (sint (totalprep_time k)) / of_int dish_count)
           in word_of_int (std_round avg_prep_time))"

text \<open>
  \<open>calculateElaboratePercentage\<close>: a division and a multiplication by 100, then
  \<open>std::round(elaborate_percentage * 100) / 100\<close>, each operation rounded to a double.
\<close>

definition calculateElaboratePercentage :: "Kitchen \<Rightarrow> rat" where
  "calculateElaboratePercentage k =
     (let dish_count = ArrayBag_getCurrentSize (items k)
      in if dish_count = 0 then 0
         else
           let elaborate_percentage =
                 to_double (to_double (of_int (sint (countelaborate k)) / of_int dish_count) * 100)
           in to_double (of_int (std_round (to_double (elaborate_percentage * 100))) / 100))"

text \<open>
  \<open>tallyCuisineTypes\<close>: the loop \<open>for (i = 0; i < getCurrentSize(); i++)\<close> over
  \<open>items_[i]\<close>, with the counter \<open>count\<close> as the accumulator \<open>cnt\<close>.
\<close>

fun tally_loop :: "string \<Rightarrow> Dish list \<Rightarrow> int \<Rightarrow> int" where
  "tally_loop cuisine_type_arg [] cnt = cnt"
| "tally_loop cuisine_type_arg (dish # rest) cnt =
     tally_loop cuisine_type_arg rest
       (if getCuisineType dish = cuisine_type_arg then cnt + 1 else cnt)"

definition tallyCuisineTypes :: "string \<Rightarrow> Kitchen \<Rightarrow> int" where
  "tallyCuisineTypes cuisine_type_arg k = tally_loop cuisine_type_arg (items k) 0"

text \<open>
  The loop of both release functions, \<open>for (i = getCurrentSize() - 1; i >= 0; --i)\<close>:
  the second argument is \<open>i + 1\<close>, the test \<open>qualifies\<close> is the \<open>if\<close> of the body, and
  the body calls \<open>ArrayBag::remove(items_[i])\<close>, not \<open>serveDish\<close>. The index stays below
  the number of stored items, since it starts as their number minus one and a pass
  removes at most one item.
\<close>

fun release_loop :: "(Dish \<Rightarrow> bool) \<Rightarrow> nat \<Rightarrow> Dish list \<Rightarrow> int \<Rightarrow> Dish list \<times> int" where
  "release_loop qualifies 0 xs removed_count = (xs, removed_count)"
| "release_loop qualifies (Suc i) xs removed_count =
     (if qualifies (xs ! i) then
        (case ArrayBag_remove (xs ! i) xs of
           (removed, xs') \<Rightarrow>
             release_loop qualifies i xs' (if removed then removed_count + 1 else removed_count))
      else release_loop qualifies i xs removed_count)"

text \<open>
  The same loop, returning whether each of its reads \<open>items_[i]\<close> is of a slot that
  holds a stored item.
\<close>

fun release_loop_in_range :: "(Dish \<Rightarrow> bool) \<Rightarrow> nat \<Rightarrow> Dish list \<Rightarrow> bool" where
  "release_loop_in_range qualifies 0 xs = True"
| "release_loop_in_range qualifies (Suc i) xs =
     (i < length xs \<and>
      (if qualifies (xs ! i) then
         release_loop_in_range qualifies i (snd (ArrayBag_remove (xs ! i) xs))
       else release_loop_in_range qualifies i xs))"

definition releaseDishesBelowPrepTime :: "int32 \<Rightarrow> Kitchen \<Rightarrow> int \<times> Kitchen" where
  "releaseDishesBelowPrepTime prep_time_threshold k =
     (if prep_time_threshold <s 0 then (0, k)
      else if prep_time_threshold = 0 then
        (ArrayBag_getCurrentSize (items k), k\<lparr>items := ArrayBag_clear (items k)\<rparr>)
      else
        (case release_loop (\<lambda>d. getPrepTime d <s prep_time_threshold)
                (length (items k)) (items k) 0 of
           (items', removed_count) \<Rightarrow> (removed_count, k\<lparr>items := items'\<rparr>)))"

text \<open>
  The \<open>if\<close>/\<open>else if\<close> chain of \<open>releaseDishesOfCuisineType\<close> that maps the argument
  to the enumeration, with \<open>None\<close> for its final \<open>return 0\<close>.
\<close>

definition match_cuisine :: "string \<Rightarrow> CuisineType option" where
  "match_cuisine s =
     (if s = ''ITALIAN'' then Some ITALIAN
      else if s = ''MEXICAN'' then Some MEXICAN
      else if s = ''CHINESE'' then Some CHINESE
      else if s = ''INDIAN'' then Some INDIAN
      else if s = ''AMERICAN'' then Some AMERICAN
      else if s = ''FRENCH'' then Some FRENCH
      else if s = ''OTHER'' then Some OTHER
      else None)"

definition releaseDishesOfCuisineType :: "string \<Rightarrow> Kitchen \<Rightarrow> int \<times> Kitchen" where
  "releaseDishesOfCuisineType cuisine_type_arg k =
     (if cuisine_type_arg = ''ALL'' then
        (ArrayBag_getCurrentSize (items k), k\<lparr>items := ArrayBag_clear (items k)\<rparr>)
      else
        (case match_cuisine cuisine_type_arg of
           None \<Rightarrow> (0, k)
         | Some type \<Rightarrow>
             (case release_loop (\<lambda>d. getCuisineType d = cuisine_type_arg)
                     (length (items k)) (items k) 0 of
                (items', removed_count) \<Rightarrow> (removed_count, k\<lparr>items := items'\<rparr>))))"

text \<open>
  \<open>kitchenReport\<close>, a \<open>const\<close> member function: the text it writes to \<open>std::cout\<close>.
\<close>

definition kitchenReport :: "Kitchen \<Rightarrow> string" where
  "kitchenReport k =
     (let italianCount = tallyCuisineTypes ''ITALIAN'' k;
          mexicanCount = tallyCuisineTypes ''MEXICAN'' k;
          chineseCount = tallyCuisineTypes ''CHINESE'' k;
          indianCount = tallyCuisineTypes ''INDIAN'' k;
          americanCount = tallyCuisineTypes ''AMERICAN'' k;
          frenchCount = tallyCuisineTypes ''FRENCH'' k;
          otherCount = tallyCuisineTypes ''OTHER'' k;
          avgPrepTime = calculateAvgPrepTime k;
          elaboratePercentage = calculateElaboratePercentage k
      in ''ITALIAN: '' @ show_int italianCount @ endl @
         ''MEXICAN: '' @ show_int mexicanCount @ endl @
         ''CHINESE: '' @ show_int chineseCount @ endl @
         ''INDIAN: '' @ show_int indianCount @ endl @
         ''AMERICAN: '' @ show_int americanCount @ endl @
         ''FRENCH: '' @ show_int frenchCount @ endl @
         ''OTHER: '' @ show_int otherCount @ endl @
         ''\<newline>AVERAGE PREP TIME: '' @ show_int (sint avgPrepTime) @ endl @
         ''ELABORATE: '' @ show_fixed2 elaboratePercentage @ ''%'' @ endl)"

section \<open>Sequences of mutations\<close>

datatype Mutation =
  NewOrder Dish
| ServeDish Dish
| ReleaseDishesBelowPrepTime int32
| ReleaseDishesOfCuisineType string

fun mutate :: "nat \<Rightarrow> Kitchen \<Rightarrow> Mutation \<Rightarrow> Kitchen" where
  "mutate capacity k (NewOrder d) = snd (newOrder capacity d k)"
| "mutate capacity k (ServeDish d) = snd (serveDish d k)"
| "mutate capacity k (ReleaseDishesBelowPrepTime t) = snd (releaseDishesBelowPrepTime t k)"
| "mutate capacity k (ReleaseDishesOfCuisineType c) = snd (releaseDishesOfCuisineType c k)"

definition run :: "nat \<Rightarrow> Mutation list \<Rightarrow> Kitchen" where
  "run capacity ms = foldl (mutate capacity) Kitchen_new ms"

text \<open>The dishes a sequence of mutations passes to \<open>newOrder\<close>, in order.\<close>

fun ordered_dishes :: "Mutation list \<Rightarrow> Dish list" where
  "ordered_dishes [] = []"
| "ordered_dishes (NewOrder d # ms) = d # ordered_dishes ms"
| "ordered_dishes (m # ms) = ordered_dishes ms"

text \<open>
  What the two members are documented to hold (\<open>Kitchen.hpp\<close>: the sum of the
  preparation times, and the count of the elaborate dishes, of all the dishes currently in
  the kitchen): the fold over a list of dishes, as unbounded integers.
\<close>

definition elaborate :: "Dish \<Rightarrow> bool" where
  "elaborate d = (5 \<le> length (getIngredients d) \<and> 60 \<le>s getPrepTime d)"

definition stored_prep_time :: "Dish list \<Rightarrow> int" where
  "stored_prep_time xs = sum_list (map (\<lambda>d. sint (getPrepTime d)) xs)"

definition stored_elaborate :: "Dish list \<Rightarrow> int" where
  "stored_elaborate xs = int (length (filter elaborate xs))"

text \<open>The seven labels, in the order \<open>kitchenReport\<close> tallies them.\<close>

definition cuisine_labels :: "string list" where
  "cuisine_labels =
     [''ITALIAN'', ''MEXICAN'', ''CHINESE'', ''INDIAN'', ''AMERICAN'', ''FRENCH'', ''OTHER'']"

section \<open>The test driver (\<open>test.cpp\<close>)\<close>

text \<open>
  The four dishes \<open>main\<close> constructs and orders. The kitchen has a capacity of 10 here;
  any capacity of at least 4 gives the same kitchen.
\<close>

definition dish1 :: Dish where
  "dish1 = \<lparr>name = ''Spaghetti'', ingredients = [''Pasta'', ''Tomato Sauce'', ''Basil''],
             prep_time = 20, price = 12.50, cuisine_type = ITALIAN\<rparr>"

definition dish2 :: Dish where
  "dish2 = \<lparr>name = ''Beef Stew'',
             ingredients = [''Beef'', ''Potatoes'', ''Carrots'', ''Onions'', ''Garlic''],
             prep_time = 90, price = 20.99, cuisine_type = AMERICAN\<rparr>"

definition dish3 :: Dish where
  "dish3 = \<lparr>name = ''Tacos'', ingredients = [''Tortilla'', ''Beef'', ''Lettuce''],
             prep_time = 15, price = 9.99, cuisine_type = MEXICAN\<rparr>"

definition dish4 :: Dish where
  "dish4 = \<lparr>name = ''Pizza'', ingredients = [''Dough'', ''Tomato Sauce'', ''Cheese''],
             prep_time = 30, price = 14.99, cuisine_type = ITALIAN\<rparr>"

definition test_kitchen :: Kitchen where
  "test_kitchen = run 10 [NewOrder dish1, NewOrder dish2, NewOrder dish3, NewOrder dish4]"

section \<open>A kitchen of numbered dishes\<close>



section \<open>The container's primitives\<close>

lemma getIndexOf_None: "ArrayBag_getIndexOf x xs = None \<longleftrightarrow> x \<notin> set xs"
  by (induction xs) auto

lemma contains_iff: "ArrayBag_contains xs x \<longleftrightarrow> x \<in> set xs"
  by (simp add: ArrayBag_contains_def getIndexOf_None)

lemma getIndexOf_append_new:
  "x \<notin> set xs \<Longrightarrow> ArrayBag_getIndexOf x (xs @ [x]) = Some (length xs)"
  by (induction xs) auto

lemma remove_appended: "x \<notin> set xs \<Longrightarrow> ArrayBag_remove x (xs @ [x]) = (True, xs)"
  by (simp add: ArrayBag_remove_def getIndexOf_append_new)

section \<open>Tallies and unrecognized labels\<close>

lemma tally_loop_count:
  "tally_loop c xs n = n + int (length (filter (\<lambda>d. getCuisineType d = c) xs))"
  by (induction xs arbitrary: n) auto

lemma getCuisineType_label: "getCuisineType d \<in> set cuisine_labels"
  by (cases "cuisine_type d") (simp_all add: getCuisineType_def cuisine_labels_def)

lemma match_cuisine_None: "match_cuisine s = None \<longleftrightarrow> s \<notin> set cuisine_labels"
  by (simp add: match_cuisine_def cuisine_labels_def)

text \<open>
  C6: for a string that is none of the seven labels, \<open>tallyCuisineTypes\<close> returns 0, and,
  when the string is not \<open>ALL\<close> either, \<open>releaseDishesOfCuisineType\<close> returns 0 and
  leaves the kitchen as it was.
\<close>

theorem unrecognized_label:
  assumes "c \<notin> set cuisine_labels"
  shows "tallyCuisineTypes c k = 0 \<and>
         (c \<noteq> ''ALL'' \<longrightarrow> releaseDishesOfCuisineType c k = (0, k))"
proof -
  have "filter (\<lambda>d. getCuisineType d = c) (items k) = []"
    using assms getCuisineType_label by (auto simp: filter_empty_conv)
  then have "tallyCuisineTypes c k = 0"
    by (simp add: tallyCuisineTypes_def tally_loop_count)
  moreover have "match_cuisine c = None"
    using assms by (simp add: match_cuisine_None)
  ultimately show ?thesis
    by (simp add: releaseDishesOfCuisineType_def)
qed

theorem unrecognized_label_witness:
  "''UNKNOWN'' \<notin> set cuisine_labels \<and> ''UNKNOWN'' \<noteq> ''ALL'' \<and>
   tallyCuisineTypes ''UNKNOWN'' test_kitchen = 0 \<and>
   releaseDishesOfCuisineType ''UNKNOWN'' test_kitchen = (0, test_kitchen)"
proof -
  have h: "''UNKNOWN'' \<notin> set cuisine_labels"
    by (simp add: cuisine_labels_def)
  show ?thesis
    using h unrecognized_label [OF h, of test_kitchen] by simp
qed

lemma sum_tally_filter:
  "\<forall>d \<in> set xs. getCuisineType d \<in> set cuisine_labels \<Longrightarrow>
   sum_list (map (\<lambda>c. int (length (filter (\<lambda>d. getCuisineType d = c) xs))) cuisine_labels)
     = int (length xs)"
  by (induction xs) (auto simp: cuisine_labels_def)

text \<open>
  C10: in a kitchen whose every stored dish renders to one of the seven labels, the seven
  tallies of \<open>kitchenReport\<close> add up to the number of stored dishes.
\<close>

theorem tally_sum:
  assumes "\<forall>d \<in> set (items k). getCuisineType d \<in> set cuisine_labels"
  shows "tallyCuisineTypes ''ITALIAN'' k + tallyCuisineTypes ''MEXICAN'' k +
         tallyCuisineTypes ''CHINESE'' k + tallyCuisineTypes ''INDIAN'' k +
         tallyCuisineTypes ''AMERICAN'' k + tallyCuisineTypes ''FRENCH'' k +
         tallyCuisineTypes ''OTHER'' k = ArrayBag_getCurrentSize (items k)"
  using sum_tally_filter [OF assms]
  by (simp add: tallyCuisineTypes_def tally_loop_count cuisine_labels_def
      ArrayBag_getCurrentSize_def)

lemma test_kitchen_eq:
  "test_kitchen = \<lparr>items = [dish1, dish2, dish3, dish4], totalprep_time = 155, countelaborate = 1\<rparr>"
  by code_simp

theorem tally_sum_witness:
  "items test_kitchen = [dish1, dish2, dish3, dish4] \<and>
   getCuisineType dish1 = ''ITALIAN'' \<and> getCuisineType dish2 = ''AMERICAN'' \<and>
   getCuisineType dish3 = ''MEXICAN'' \<and> getCuisineType dish4 = ''ITALIAN'' \<and>
   tallyCuisineTypes ''ITALIAN'' test_kitchen = 2 \<and>
   tallyCuisineTypes ''MEXICAN'' test_kitchen = 1 \<and>
   tallyCuisineTypes ''AMERICAN'' test_kitchen = 1 \<and>
   ArrayBag_getCurrentSize (items test_kitchen) = 4"
proof -
  have h: "\<forall>d \<in> set (items test_kitchen). getCuisineType d \<in> set cuisine_labels"
    by (simp add: getCuisineType_label)
  have t: "tallyCuisineTypes ''CHINESE'' test_kitchen = 0"
    "tallyCuisineTypes ''INDIAN'' test_kitchen = 0"
    "tallyCuisineTypes ''FRENCH'' test_kitchen = 0"
    "tallyCuisineTypes ''OTHER'' test_kitchen = 0"
    "tallyCuisineTypes ''ITALIAN'' test_kitchen = 2"
    "tallyCuisineTypes ''MEXICAN'' test_kitchen = 1"
    by code_simp+
  have s: "ArrayBag_getCurrentSize (items test_kitchen) = 4"
    by (simp add: test_kitchen_eq ArrayBag_getCurrentSize_def)
  have l: "getCuisineType dish1 = ''ITALIAN''" "getCuisineType dish2 = ''AMERICAN''"
    "getCuisineType dish3 = ''MEXICAN''" "getCuisineType dish4 = ''ITALIAN''"
    by code_simp+
  show ?thesis
    using tally_sum [OF h] t s l by (simp add: test_kitchen_eq)
qed

section \<open>Adding and serving one dish\<close>

text \<open>
  C4: when \<open>newOrder(d)\<close> succeeds (so \<open>d\<close> was not stored), \<open>serveDish(d)\<close> on the
  kitchen it leaves succeeds and gives back the kitchen before the add: the same stored
  dishes in the same slots and the same 32-bit values of both members, also when the
  addition wrapped around.
\<close>

theorem newOrder_serveDish_roundtrip:
  assumes "newOrder capacity d k = (True, k')"
  shows "d \<notin> set (items k) \<and> serveDish d k' = (True, k)"
proof -
  from assms have notin: "d \<notin> set (items k)"
    by (auto simp: newOrder_def contains_iff split: if_splits)
  from assms notin have room: "length (items k) < capacity"
    by (auto simp: newOrder_def contains_iff ArrayBag_add_def split: if_splits)
  from assms notin room have k': "k' = k\<lparr>items := items k @ [d],
        totalprep_time := totalprep_time k + getPrepTime d,
        countelaborate := (if 5 \<le> length (getIngredients d) \<and> 60 \<le>s getPrepTime d
                     then countelaborate k + 1 else countelaborate k)\<rparr>"
    by (auto simp: newOrder_def contains_iff ArrayBag_add_def)
  have "serveDish d k' = (True, k)"
    unfolding k' by (simp add: serveDish_def contains_iff remove_appended notin)
  with notin show ?thesis by simp
qed

theorem newOrder_serveDish_roundtrip_witness:
  "newOrder 10 dish2 \<lparr>items = [dish1], totalprep_time = 2147483647, countelaborate = 0\<rparr> =
     (True, \<lparr>items = [dish1, dish2], totalprep_time = - 2147483559, countelaborate = 1\<rparr>) \<and>
   dish2 \<notin> set [dish1] \<and>
   serveDish dish2 \<lparr>items = [dish1, dish2], totalprep_time = - 2147483559, countelaborate = 1\<rparr> =
     (True, \<lparr>items = [dish1], totalprep_time = 2147483647, countelaborate = 0\<rparr>)"
proof -
  have h: "newOrder 10 dish2 \<lparr>items = [dish1], totalprep_time = 2147483647, countelaborate = 0\<rparr> =
     (True, \<lparr>items = [dish1, dish2], totalprep_time = - 2147483559, countelaborate = 1\<rparr>)"
    by code_simp
  show ?thesis
    using h newOrder_serveDish_roundtrip [OF h] by simp
qed

text \<open>
  C5: when a dish equal to \<open>d\<close> is stored, \<open>newOrder(d)\<close> returns false and leaves the
  kitchen as it was; and whatever the kitchen, a second \<open>newOrder(d)\<close> right after a first
  returns false and leaves the kitchen as the first call left it.
\<close>

theorem newOrder_duplicate_rejected:
  "(d \<in> set (items k) \<longrightarrow> newOrder capacity d k = (False, k)) \<and>
   newOrder capacity d (snd (newOrder capacity d k)) = (False, snd (newOrder capacity d k))"
  by (auto simp: newOrder_def contains_iff ArrayBag_add_def)

theorem newOrder_duplicate_rejected_witness:
  "dish3 \<in> set (items test_kitchen) \<and>
   newOrder 10 dish3 test_kitchen = (False, test_kitchen) \<and>
   newOrder 10 dish3 (snd (newOrder 10 dish3 Kitchen_new)) =
     (False, \<lparr>items = [dish3], totalprep_time = 15, countelaborate = 0\<rparr>)"
proof -
  have h: "dish3 \<in> set (items test_kitchen)"
    by (simp add: test_kitchen_eq)
  have e: "snd (newOrder 10 dish3 Kitchen_new) =
      \<lparr>items = [dish3], totalprep_time = 15, countelaborate = 0\<rparr>"
    by code_simp
  show ?thesis
    using h e newOrder_duplicate_rejected [of dish3 test_kitchen 10]
      newOrder_duplicate_rejected [of dish3 Kitchen_new 10]
    by simp
qed

section \<open>Removal from the container\<close>

lemma getIndexOf_Some:
  "ArrayBag_getIndexOf x xs = Some j \<Longrightarrow> j < length xs \<and> xs ! j = x \<and> (\<forall>i<j. xs ! i \<noteq> x)"
proof (induction xs arbitrary: j)
  case Nil
  then show ?case by simp
next
  case (Cons y ys)
  show ?case
  proof (cases "y = x")
    case True
    with Cons.prems show ?thesis by simp
  next
    case False
    with Cons.prems obtain j' where j': "ArrayBag_getIndexOf x ys = Some j'" "j = Suc j'"
      by auto
    from Cons.IH [OF j'(1)] False j'(2) show ?thesis
      by (auto simp: nth_Cons split: nat.splits)
  qed
qed

lemma getIndexOf_distinct:
  "distinct xs \<Longrightarrow> i < length xs \<Longrightarrow> ArrayBag_getIndexOf (xs ! i) xs = Some i"
proof -
  assume d: "distinct xs" and i: "i < length xs"
  then have "xs ! i \<in> set xs" by simp
  then obtain j where j: "ArrayBag_getIndexOf (xs ! i) xs = Some j"
    using getIndexOf_None [of "xs ! i" xs] by auto
  from getIndexOf_Some [OF j] d i have "j = i"
    by (auto simp: nth_eq_iff_index_eq)
  with j show ?thesis by simp
qed

lemma mset_move_last:
  assumes "j < length xs"
  shows "mset (butlast (xs[j := last xs])) = mset xs - {#xs ! j#}"
proof (cases "j = length xs - 1")
  case True
  from assms have ne: "xs \<noteq> []" by auto
  with True have "xs ! j = last xs" by (simp add: last_conv_nth)
  then have "xs[j := last xs] = xs" by (metis list_update_id)
  moreover have "mset (butlast xs) = mset xs - {#last xs#}"
    using ne by (metis add_mset_remove_trivial append_butlast_last_id mset.simps(2) mset_append union_mset_add_mset_right add.right_neutral mset.simps(1))
  ultimately show ?thesis using \<open>xs ! j = last xs\<close> by simp
next
  case False
  from assms have ne: "xs \<noteq> []" by auto
  from False assms have j: "j < length (butlast xs)" by simp
  have "butlast (xs[j := last xs]) = (butlast xs)[j := last xs]"
    using False by (simp add: butlast_list_update)
  then have "mset (butlast (xs[j := last xs])) = add_mset (last xs) (mset (butlast xs) - {#butlast xs ! j#})"
    using j by (simp add: mset_update)
  moreover have "butlast xs ! j = xs ! j" using j by (simp add: nth_butlast)
  moreover have "mset xs = add_mset (last xs) (mset (butlast xs))"
    using ne by (metis append_butlast_last_id mset.simps(2) mset_append union_mset_add_mset_right add.right_neutral mset.simps(1))
  moreover have "xs ! j \<in># mset (butlast xs)"
    using j by (metis nth_mem_mset \<open>butlast xs ! j = xs ! j\<close>)
  ultimately show ?thesis by simp
qed

lemma remove_mset:
  "ArrayBag_remove x xs = (b, ys) \<Longrightarrow> (b \<longleftrightarrow> x \<in> set xs) \<and> mset ys = mset xs - {#x#}"
  by (auto simp: ArrayBag_remove_def getIndexOf_None mset_move_last
      split: option.splits dest!: getIndexOf_Some)

lemma remove_at_distinct:
  assumes "distinct xs" "i < length xs"
  shows "ArrayBag_remove (xs ! i) xs = (True, butlast (xs[i := last xs]))"
  using assms by (simp add: ArrayBag_remove_def getIndexOf_distinct)

lemma distinct_submset:
  assumes "distinct xs" "mset ys \<subseteq># mset xs"
  shows "distinct ys"
proof -
  have le1: "count (mset ys) a \<le> 1" for a
  proof -
    have "count (mset ys) a \<le> count (mset xs) a"
      using assms(2) by (rule mset_subset_eq_count)
    also have "\<dots> \<le> 1"
      using assms(1) by (simp add: distinct_count_atmost_1)
    finally show ?thesis .
  qed
  have "count (mset ys) a = (if a \<in> set ys then 1 else 0)" for a
  proof (cases "a \<in> set ys")
    case True
    then have "1 \<le> count (mset ys) a" by simp
    with le1 [of a] have "count (mset ys) a = 1" by linarith
    with True show ?thesis by simp
  next
    case False
    then show ?thesis by (simp add: count_eq_zero_iff)
  qed
  then show ?thesis
    by (simp only: distinct_count_atmost_1) simp
qed

lemma distinct_move_last:
  assumes "distinct xs" "i < length xs"
  shows "distinct (butlast (xs[i := last xs]))"
proof -
  have "mset (butlast (xs[i := last xs])) \<subseteq># mset xs"
    using assms(2) by (simp add: mset_move_last)
  with assms(1) show ?thesis by (rule distinct_submset)
qed

lemma nth_move_last:
  assumes "j < length xs - 1"
  shows "butlast (xs[i := last xs]) ! j = (if j = i then last xs else xs ! j)"
  using assms by (simp add: nth_butlast nth_list_update)

lemma release_loop_distinct:
  assumes "distinct xs" "i \<le> length xs" "\<forall>j. i \<le> j \<and> j < length xs \<longrightarrow> \<not> P (xs ! j)"
    and "release_loop P i xs c = (ys, n)"
  shows "mset ys = filter_mset (\<lambda>d. \<not> P d) (mset xs) \<and>
         n = c + int (size (filter_mset P (mset xs))) \<and> distinct ys"
  using assms
proof (induction i arbitrary: xs c)
  case 0
  then have "\<forall>x \<in> set xs. \<not> P x"
    by (auto simp: in_set_conv_nth)
  then have "filter_mset P (mset xs) = {#}" "filter_mset (\<lambda>d. \<not> P d) (mset xs) = mset xs"
    by (auto simp: filter_mset_eq_conv)
  with 0 show ?case by simp
next
  case (Suc i)
  from Suc.prems have i: "i < length xs" by simp
  show ?case
  proof (cases "P (xs ! i)")
    case False
    with Suc.prems have run: "release_loop P i xs c = (ys, n)" by simp
    have "\<forall>j. i \<le> j \<and> j < length xs \<longrightarrow> \<not> P (xs ! j)"
      using Suc.prems(3) False by (metis Suc_leI le_neq_implies_less)
    from Suc.IH [OF Suc.prems(1) _ this run] i show ?thesis by simp
  next
    case True
    let ?xs' = "butlast (xs[i := last xs])"
    from True Suc.prems(4) remove_at_distinct [OF Suc.prems(1) i]
    have run: "release_loop P i ?xs' (c + 1) = (ys, n)" by simp
    have d': "distinct ?xs'" by (rule distinct_move_last [OF Suc.prems(1) i])
    have len: "length ?xs' = length xs - 1" by simp
    have le: "i \<le> length ?xs'" using i by simp
    have kept: "\<forall>j. i \<le> j \<and> j < length ?xs' \<longrightarrow> \<not> P (?xs' ! j)"
    proof (intro allI impI)
      fix j assume j: "i \<le> j \<and> j < length ?xs'"
      then have j1: "j < length xs - 1" by simp
      from j1 i have ne: "xs \<noteq> []" by auto
      have "\<not> P (last xs)"
        using Suc.prems(3) j j1 ne by (simp add: last_conv_nth)
      moreover have "\<not> P (xs ! j)" if "j \<noteq> i"
      proof -
        from that j j1 have "Suc i \<le> j \<and> j < length xs" by linarith
        with Suc.prems(3) show ?thesis by blast
      qed
      ultimately show "\<not> P (?xs' ! j)"
        using nth_move_last [OF j1, of i] by simp
    qed
    have m: "mset ?xs' = mset xs - {#xs ! i#}" by (rule mset_move_last [OF i])
    have mem: "xs ! i \<in># mset xs" using i by simp
    from Suc.IH [OF d' le kept run]
    have ih: "mset ys = filter_mset (\<lambda>d. \<not> P d) (mset ?xs')"
      "n = c + 1 + int (size (filter_mset P (mset ?xs')))" "distinct ys" by simp_all
    have f1: "filter_mset (\<lambda>d. \<not> P d) (mset ?xs') = filter_mset (\<lambda>d. \<not> P d) (mset xs)"
      using True by (simp add: m)
    have "filter_mset P (mset ?xs') = filter_mset P (mset xs) - {#xs ! i#}"
      using True by (simp add: m)
    moreover have "xs ! i \<in># filter_mset P (mset xs)" using True mem by simp
    ultimately have "size (filter_mset P (mset xs)) = Suc (size (filter_mset P (mset ?xs')))"
      by (simp add: size_Suc_Diff1)
    with ih f1 show ?thesis by simp
  qed
qed

lemma remove_length: "length xs - 1 \<le> length (snd (ArrayBag_remove x xs))"
  by (simp add: ArrayBag_remove_def split: option.splits)

text \<open>Started at the number of stored items, the loop only reads stored items.\<close>

lemma release_loop_reads_stored:
  "i \<le> length xs \<Longrightarrow> release_loop_in_range qualifies i xs"
proof (induction i arbitrary: xs)
  case 0
  show ?case by simp
next
  case (Suc i)
  then have "i \<le> length xs - 1" by simp
  also have "\<dots> \<le> length (snd (ArrayBag_remove (xs ! i) xs))"
    by (rule remove_length)
  finally have "release_loop_in_range qualifies i (snd (ArrayBag_remove (xs ! i) xs))"
    by (rule Suc.IH)
  moreover have "release_loop_in_range qualifies i xs"
    using Suc.prems by (intro Suc.IH) simp
  ultimately show ?case
    using Suc.prems by simp
qed

section \<open>The stored dishes and the two members\<close>

lemma sint_add_32:
  fixes a b :: int32
  assumes "- (2 ^ 31) \<le> sint a + sint b" "sint a + sint b < 2 ^ 31"
  shows "sint (a + b) = sint a + sint b"
  using assms by (simp add: sint_word_ariths signed_take_bit_int_eq_self)

lemma sint_sub_32:
  fixes a b :: int32
  assumes "- (2 ^ 31) \<le> sint a - sint b" "sint a - sint b < 2 ^ 31"
  shows "sint (a - b) = sint a - sint b"
  using assms by (simp add: sint_word_ariths signed_take_bit_int_eq_self)

lemma stored_prep_time_mset:
  "stored_prep_time xs = sum_mset (image_mset (\<lambda>d. sint (getPrepTime d)) (mset xs))"
  unfolding stored_prep_time_def by (metis mset_map sum_mset_sum_list)

lemma stored_elaborate_mset:
  "stored_elaborate xs = int (size (filter_mset elaborate (mset xs)))"
  unfolding stored_elaborate_def by (metis mset_filter size_mset)

lemma stored_prep_time_nonneg:
  "\<forall>d \<in> set xs. 0 \<le> sint (getPrepTime d) \<Longrightarrow> 0 \<le> stored_prep_time xs"
  unfolding stored_prep_time_def by (rule sum_list_nonneg) auto

lemma sum_mset_image_nonneg:
  fixes f :: "'a \<Rightarrow> int"
  shows "\<forall>x \<in># M. 0 \<le> f x \<Longrightarrow> 0 \<le> sum_mset (image_mset f M)"
  by (induction M) auto

lemma release_loop_all:
  assumes "distinct xs" "release_loop P (length xs) xs 0 = (ys, n)"
  shows "mset ys = filter_mset (\<lambda>d. \<not> P d) (mset xs)"
    and "n = int (size (filter_mset P (mset xs)))" and "distinct ys"
proof -
  have "\<forall>j. length xs \<le> j \<and> j < length xs \<longrightarrow> \<not> P (xs ! j)"
    by auto
  from release_loop_distinct [OF assms(1) le_refl this assms(2)]
  show "mset ys = filter_mset (\<lambda>d. \<not> P d) (mset xs)"
    and "n = int (size (filter_mset P (mset xs)))" and "distinct ys"
    by simp_all
qed

lemma stored_prep_time_submset:
  assumes "mset ys \<subseteq># mset xs" "\<forall>d \<in> set xs. 0 \<le> sint (getPrepTime d)"
  shows "stored_prep_time ys \<le> stored_prep_time xs"
proof -
  from assms(1) obtain D where D: "mset xs = mset ys + D"
    by (metis subset_mset.le_iff_add)
  have "\<forall>d \<in># D. 0 \<le> sint (getPrepTime d)"
    using assms(2) D by (metis set_mset_mset union_iff)
  then have "0 \<le> sum_mset (image_mset (\<lambda>d. sint (getPrepTime d)) D)"
    by (rule sum_mset_image_nonneg)
  then show ?thesis
    by (simp add: stored_prep_time_mset D)
qed

lemma stored_elaborate_submset:
  assumes "mset ys \<subseteq># mset xs"
  shows "stored_elaborate ys \<le> stored_elaborate xs"
  using assms by (simp add: stored_elaborate_mset multiset_filter_mono size_mset_mono)

lemma stored_prep_time_remove:
  assumes "d \<in> set xs" "mset ys = mset xs - {#d#}"
  shows "stored_prep_time ys = stored_prep_time xs - sint (getPrepTime d)"
proof -
  from assms have "mset xs = add_mset d (mset ys)" by simp
  then show ?thesis by (simp add: stored_prep_time_mset)
qed

lemma stored_elaborate_remove:
  assumes "d \<in> set xs" "mset ys = mset xs - {#d#}"
  shows "stored_elaborate ys = stored_elaborate xs - (if elaborate d then 1 else 0)"
proof -
  from assms have "mset xs = add_mset d (mset ys)" by simp
  then show ?thesis by (simp add: stored_elaborate_mset)
qed

text \<open>What both release functions do to a kitchen of distinct dishes.\<close>

lemma releaseBelow_effect:
  assumes "distinct (items k)" "releaseDishesBelowPrepTime t k = (n, k')"
  shows "k' = k\<lparr>items := items k'\<rparr> \<and> mset (items k') \<subseteq># mset (items k) \<and> distinct (items k')"
proof (cases "t <s 0 \<or> t = 0")
  case True
  with assms show ?thesis
    by (auto simp: releaseDishesBelowPrepTime_def ArrayBag_clear_def split: if_splits)
next
  case False
  obtain ys c where r: "release_loop (\<lambda>d. getPrepTime d <s t) (length (items k)) (items k) 0 = (ys, c)"
    by (cases "release_loop (\<lambda>d. getPrepTime d <s t) (length (items k)) (items k) 0")
  from release_loop_all [OF assms(1) r]
  have "mset ys = filter_mset (\<lambda>d. \<not> getPrepTime d <s t) (mset (items k))" "distinct ys"
    by simp_all
  moreover from False r assms(2) have "k' = k\<lparr>items := ys\<rparr>"
    by (simp add: releaseDishesBelowPrepTime_def)
  ultimately show ?thesis by simp
qed

lemma releaseCuisine_effect:
  assumes "distinct (items k)" "releaseDishesOfCuisineType c k = (n, k')"
  shows "k' = k\<lparr>items := items k'\<rparr> \<and> mset (items k') \<subseteq># mset (items k) \<and> distinct (items k')"
proof (cases "c = ''ALL'' \<or> match_cuisine c = None")
  case True
  with assms show ?thesis
    by (auto simp: releaseDishesOfCuisineType_def ArrayBag_clear_def split: if_splits)
next
  case False
  obtain ys m where r: "release_loop (\<lambda>d. getCuisineType d = c) (length (items k)) (items k) 0 = (ys, m)"
    by (cases "release_loop (\<lambda>d. getCuisineType d = c) (length (items k)) (items k) 0")
  from release_loop_all [OF assms(1) r]
  have "mset ys = filter_mset (\<lambda>d. \<not> getCuisineType d = c) (mset (items k))" "distinct ys"
    by simp_all
  moreover from False r assms(2) have "k' = k\<lparr>items := ys\<rparr>"
    by (auto simp: releaseDishesOfCuisineType_def)
  ultimately show ?thesis by simp
qed

lemma newOrder_cases:
  assumes "newOrder capacity d k = (b, k')"
  shows "(\<not> b \<and> k' = k) \<or>
         (b \<and> d \<notin> set (items k) \<and> items k' = items k @ [d] \<and>
          totalprep_time k' = totalprep_time k + getPrepTime d \<and>
          countelaborate k' = countelaborate k + (if elaborate d then 1 else 0))"
  using assms
  by (auto simp: newOrder_def contains_iff ArrayBag_add_def elaborate_def split: if_splits)

lemma serveDish_cases:
  assumes "serveDish d k = (b, k')"
  shows "(\<not> b \<and> k' = k) \<or>
         (b \<and> d \<in> set (items k) \<and> mset (items k') = mset (items k) - {#d#} \<and>
          totalprep_time k' = totalprep_time k - getPrepTime d \<and>
          countelaborate k' = countelaborate k - (if elaborate d then 1 else 0))"
proof (cases "d \<in> set (items k)")
  case False
  with assms show ?thesis by (simp add: serveDish_def contains_iff)
next
  case True
  obtain r ys where r: "ArrayBag_remove d (items k) = (r, ys)"
    by (cases "ArrayBag_remove d (items k)")
  from remove_mset [OF r] True have "r" "mset ys = mset (items k) - {#d#}" by simp_all
  with assms True r show ?thesis
    by (auto simp: serveDish_def contains_iff elaborate_def)
qed

lemma ordered_dishes_append:
  "ordered_dishes (ms @ ms') = ordered_dishes ms @ ordered_dishes ms'"
  by (induction ms rule: ordered_dishes.induct) simp_all

lemma mutate_invariant:
  assumes dist: "distinct (items k)"
    and sub: "set (items k) \<subseteq> set ds"
    and lo: "stored_prep_time (items k) \<le> sint (totalprep_time k)"
    and hi: "sint (totalprep_time k) \<le> stored_prep_time ds"
    and elo: "stored_elaborate (items k) \<le> sint (countelaborate k)"
    and ehi: "sint (countelaborate k) \<le> int (length ds)"
    and nonneg: "\<forall>d \<in> set (ds @ ordered_dishes [m]). 0 \<le> sint (getPrepTime d)"
    and bound: "stored_prep_time (ds @ ordered_dishes [m]) < 2 ^ 31"
    and len: "int (length (ds @ ordered_dishes [m])) < 2 ^ 31"
  shows "distinct (items (mutate capacity k m)) \<and>
         set (items (mutate capacity k m)) \<subseteq> set (ds @ ordered_dishes [m]) \<and>
         stored_prep_time (items (mutate capacity k m)) \<le> sint (totalprep_time (mutate capacity k m)) \<and>
         sint (totalprep_time (mutate capacity k m)) \<le> stored_prep_time (ds @ ordered_dishes [m]) \<and>
         stored_elaborate (items (mutate capacity k m)) \<le> sint (countelaborate (mutate capacity k m)) \<and>
         sint (countelaborate (mutate capacity k m)) \<le> int (length (ds @ ordered_dishes [m]))"
proof -
  have st_nonneg: "\<forall>d \<in> set (items k). 0 \<le> sint (getPrepTime d)"
    using sub nonneg by auto
  have S0: "0 \<le> stored_prep_time (items k)"
    by (rule stored_prep_time_nonneg [OF st_nonneg])
  have E0: "0 \<le> stored_elaborate (items k)"
    by (simp add: stored_elaborate_def)
  have released: ?thesis
    if eff: "k' = k\<lparr>items := items k'\<rparr> \<and> mset (items k') \<subseteq># mset (items k) \<and> distinct (items k')"
      and k': "mutate capacity k m = k'" and nil: "ordered_dishes [m] = []" for k'
  proof -
    from eff have f: "totalprep_time k' = totalprep_time k" "countelaborate k' = countelaborate k"
      by (metis Kitchen.select_convs(2) Kitchen.surjective Kitchen.update_convs(1),
          metis Kitchen.select_convs(3) Kitchen.surjective Kitchen.update_convs(1))
    from eff have "set (items k') \<subseteq> set (items k)"
      by (metis set_mset_mono set_mset_mset)
    moreover from eff st_nonneg have "stored_prep_time (items k') \<le> stored_prep_time (items k)"
      by (simp add: stored_prep_time_submset)
    moreover from eff have "stored_elaborate (items k') \<le> stored_elaborate (items k)"
      by (simp add: stored_elaborate_submset)
    ultimately show ?thesis
      using eff f sub lo hi elo ehi by (auto simp: k' nil)
  qed
  show ?thesis
  proof (cases m)
    case (NewOrder d)
    obtain b k' where r: "newOrder capacity d k = (b, k')"
      by (cases "newOrder capacity d k")
    have m: "mutate capacity k m = k'" "ordered_dishes [m] = [d]"
      using NewOrder r by simp_all
    have p: "0 \<le> sint (getPrepTime d)" using nonneg m by simp
    have U: "stored_prep_time (ds @ [d]) = stored_prep_time ds + sint (getPrepTime d)"
      by (simp add: stored_prep_time_def)
    from newOrder_cases [OF r] show ?thesis
    proof (elim disjE conjE)
      assume "k' = k"
      then show ?thesis
        using dist sub lo hi elo ehi p U by (auto simp: m)
    next
      assume a: "d \<notin> set (items k)" "items k' = items k @ [d]"
        "totalprep_time k' = totalprep_time k + getPrepTime d"
        "countelaborate k' = countelaborate k + (if elaborate d then 1 else 0)"
      have t: "sint (totalprep_time k + getPrepTime d) = sint (totalprep_time k) + sint (getPrepTime d)"
        using S0 lo hi p bound U m by (intro sint_add_32) simp_all
      have e: "sint (countelaborate k + 1) = sint (countelaborate k) + 1"
        using sint_add_32 [of "countelaborate k" 1] E0 elo ehi len m by simp
      have "stored_prep_time (items k') = stored_prep_time (items k) + sint (getPrepTime d)"
        by (simp add: a stored_prep_time_def)
      moreover have "stored_elaborate (items k') = stored_elaborate (items k) + (if elaborate d then 1 else 0)"
        by (simp add: a stored_elaborate_def)
      ultimately show ?thesis
        using a dist sub lo hi elo ehi t e U by (auto simp: m)
    qed
  next
    case (ServeDish d)
    obtain b k' where r: "serveDish d k = (b, k')"
      by (cases "serveDish d k")
    have m: "mutate capacity k m = k'" "ordered_dishes [m] = []"
      using ServeDish r by simp_all
    from serveDish_cases [OF r] show ?thesis
    proof (elim disjE conjE)
      assume "k' = k"
      then show ?thesis
        using dist sub lo hi elo ehi by (simp add: m)
    next
      assume a: "d \<in> set (items k)" "mset (items k') = mset (items k) - {#d#}"
        "totalprep_time k' = totalprep_time k - getPrepTime d"
        "countelaborate k' = countelaborate k - (if elaborate d then 1 else 0)"
      have p: "0 \<le> sint (getPrepTime d)" using st_nonneg a by simp
      have sp: "stored_prep_time (items k') = stored_prep_time (items k) - sint (getPrepTime d)"
        by (rule stored_prep_time_remove [OF a(1,2)])
      have se: "stored_elaborate (items k') = stored_elaborate (items k) - (if elaborate d then 1 else 0)"
        by (rule stored_elaborate_remove [OF a(1,2)])
      have subm: "mset (items k') \<subseteq># mset (items k)" by (simp add: a)
      have d': "distinct (items k')" by (rule distinct_submset [OF dist subm])
      have s': "set (items k') \<subseteq> set (items k)"
        using subm by (metis set_mset_mono set_mset_mset)
      have st': "\<forall>d \<in> set (items k'). 0 \<le> sint (getPrepTime d)"
        using s' st_nonneg by auto
      have S0': "0 \<le> stored_prep_time (items k')"
        by (rule stored_prep_time_nonneg [OF st'])
      have E0': "0 \<le> stored_elaborate (items k')"
        by (simp add: stored_elaborate_def)
      have t: "sint (totalprep_time k - getPrepTime d) = sint (totalprep_time k) - sint (getPrepTime d)"
        using S0' sp lo hi p bound m by (intro sint_sub_32) simp_all
      have e: "elaborate d \<Longrightarrow> sint (countelaborate k - 1) = sint (countelaborate k) - 1"
        using sint_sub_32 [of "countelaborate k" 1] E0' se elo ehi len m by simp
      show ?thesis
        using a d' s' sub sp se lo hi elo ehi t e p by (auto simp: m)
    qed
  next
    case (ReleaseDishesBelowPrepTime t)
    obtain n k' where r: "releaseDishesBelowPrepTime t k = (n, k')"
      by (cases "releaseDishesBelowPrepTime t k")
    show ?thesis
      using released [OF releaseBelow_effect [OF dist r]] ReleaseDishesBelowPrepTime r by simp
  next
    case (ReleaseDishesOfCuisineType c)
    obtain n k' where r: "releaseDishesOfCuisineType c k = (n, k')"
      by (cases "releaseDishesOfCuisineType c k")
    show ?thesis
      using released [OF releaseCuisine_effect [OF dist r]] ReleaseDishesOfCuisineType r by simp
  qed
qed

section \<open>Sequences of mutations from a fresh kitchen\<close>

lemma run_snoc: "run capacity (ms @ [m]) = mutate capacity (run capacity ms) m"
  by (simp add: run_def)

lemma mutate_distinct:
  assumes "distinct (items k)"
  shows "distinct (items (mutate capacity k m))"
proof (cases m)
  case (NewOrder d)
  obtain b k' where r: "newOrder capacity d k = (b, k')"
    by (cases "newOrder capacity d k")
  from newOrder_cases [OF r] assms show ?thesis
    by (auto simp: NewOrder r)
next
  case (ServeDish d)
  obtain b k' where r: "serveDish d k = (b, k')"
    by (cases "serveDish d k")
  from serveDish_cases [OF r] show ?thesis
  proof (elim disjE conjE)
    assume "k' = k"
    with assms show ?thesis by (simp add: ServeDish r)
  next
    assume "mset (items k') = mset (items k) - {#d#}"
    then have "mset (items k') \<subseteq># mset (items k)" by simp
    from distinct_submset [OF assms this] show ?thesis by (simp add: ServeDish r)
  qed
next
  case (ReleaseDishesBelowPrepTime t)
  obtain n k' where r: "releaseDishesBelowPrepTime t k = (n, k')"
    by (cases "releaseDishesBelowPrepTime t k")
  from releaseBelow_effect [OF assms r] show ?thesis
    by (simp add: ReleaseDishesBelowPrepTime r)
next
  case (ReleaseDishesOfCuisineType c)
  obtain n k' where r: "releaseDishesOfCuisineType c k = (n, k')"
    by (cases "releaseDishesOfCuisineType c k")
  from releaseCuisine_effect [OF assms r] show ?thesis
    by (simp add: ReleaseDishesOfCuisineType r)
qed

text \<open>From a fresh kitchen the four mutations only reach kitchens of distinct dishes.\<close>

lemma run_distinct: "distinct (items (run capacity ms))"
proof (induction ms rule: rev_induct)
  case Nil
  show ?case by (simp add: run_def Kitchen_new_def)
next
  case (snoc m ms)
  then show ?case by (simp add: run_snoc mutate_distinct)
qed

lemma run_invariant:
  assumes "\<forall>d \<in> set (ordered_dishes ms). 0 \<le> sint (getPrepTime d)"
    and "stored_prep_time (ordered_dishes ms) < 2 ^ 31"
    and "int (length (ordered_dishes ms)) < 2 ^ 31"
  shows "distinct (items (run capacity ms)) \<and>
         set (items (run capacity ms)) \<subseteq> set (ordered_dishes ms) \<and>
         stored_prep_time (items (run capacity ms)) \<le> sint (totalprep_time (run capacity ms)) \<and>
         sint (totalprep_time (run capacity ms)) \<le> stored_prep_time (ordered_dishes ms) \<and>
         stored_elaborate (items (run capacity ms)) \<le> sint (countelaborate (run capacity ms)) \<and>
         sint (countelaborate (run capacity ms)) \<le> int (length (ordered_dishes ms))"
  using assms
proof (induction ms rule: rev_induct)
  case Nil
  show ?case
    by (simp add: run_def Kitchen_new_def stored_prep_time_def stored_elaborate_def)
next
  case (snoc m ms)
  have app: "ordered_dishes (ms @ [m]) = ordered_dishes ms @ ordered_dishes [m]"
    by (rule ordered_dishes_append)
  have last_nonneg: "0 \<le> stored_prep_time (ordered_dishes [m])"
    using snoc.prems(1) by (intro stored_prep_time_nonneg) (simp add: app)
  have split: "stored_prep_time (ordered_dishes ms @ ordered_dishes [m]) =
      stored_prep_time (ordered_dishes ms) + stored_prep_time (ordered_dishes [m])"
    by (simp add: stored_prep_time_def)
  have ih: "distinct (items (run capacity ms)) \<and>
         set (items (run capacity ms)) \<subseteq> set (ordered_dishes ms) \<and>
         stored_prep_time (items (run capacity ms)) \<le> sint (totalprep_time (run capacity ms)) \<and>
         sint (totalprep_time (run capacity ms)) \<le> stored_prep_time (ordered_dishes ms) \<and>
         stored_elaborate (items (run capacity ms)) \<le> sint (countelaborate (run capacity ms)) \<and>
         sint (countelaborate (run capacity ms)) \<le> int (length (ordered_dishes ms))"
    using snoc.prems last_nonneg split by (intro snoc.IH) (simp_all add: app)
  show ?case
    unfolding run_snoc app
    using ih snoc.prems
    by (intro mutate_invariant) (simp_all add: app)
qed

text \<open>
  C9, as amended: take any sequence of mutations whose ordered dishes have non-negative
  preparation times that add up to less than \<open>2^31\<close>, with fewer than \<open>2^31\<close>
  orders. From a fresh kitchen, after each of its mutations (after the first \<open>n\<close>, for
  every \<open>n\<close>), \<open>getPrepTimeSum()\<close> and \<open>elaborateDishCount()\<close> are at least the sum of
  the preparation times and the count of the elaborate dishes among the stored dishes,
  which are non-negative.
\<close>

theorem members_bound_stored:
  assumes "\<forall>d \<in> set (ordered_dishes ms). 0 \<le>s getPrepTime d"
    and "stored_prep_time (ordered_dishes ms) < 2 ^ 31"
    and "int (length (ordered_dishes ms)) < 2 ^ 31"
  shows "0 \<le> stored_prep_time (items (run capacity (take n ms))) \<and>
         stored_prep_time (items (run capacity (take n ms))) \<le>
           sint (getPrepTimeSum (run capacity (take n ms))) \<and>
         0 \<le> stored_elaborate (items (run capacity (take n ms))) \<and>
         stored_elaborate (items (run capacity (take n ms))) \<le>
           sint (elaborateDishCount (run capacity (take n ms)))"
proof -
  define ms' where "ms' = take n ms"
  have "ordered_dishes ms = ordered_dishes (ms' @ drop n ms)"
    by (simp add: ms'_def)
  then have split: "ordered_dishes ms = ordered_dishes ms' @ ordered_dishes (drop n ms)"
    by (simp only: ordered_dishes_append)
  from assms(1) have all: "\<forall>d \<in> set (ordered_dishes ms). 0 \<le> sint (getPrepTime d)"
    by (simp add: word_sle_eq)
  then have nn: "\<forall>d \<in> set (ordered_dishes ms'). 0 \<le> sint (getPrepTime d)"
    and rest: "\<forall>d \<in> set (ordered_dishes (drop n ms)). 0 \<le> sint (getPrepTime d)"
    by (simp_all add: split)
  have "stored_prep_time (ordered_dishes ms) =
      stored_prep_time (ordered_dishes ms') + stored_prep_time (ordered_dishes (drop n ms))"
    by (simp add: split stored_prep_time_def)
  with stored_prep_time_nonneg [OF rest] assms(2)
  have sum: "stored_prep_time (ordered_dishes ms') < 2 ^ 31"
    by simp
  have len: "int (length (ordered_dishes ms')) < 2 ^ 31"
    using assms(3) by (simp add: split)
  from run_invariant [OF nn sum len, of capacity]
  have inv: "set (items (run capacity ms')) \<subseteq> set (ordered_dishes ms')"
    "stored_prep_time (items (run capacity ms')) \<le> sint (totalprep_time (run capacity ms'))"
    "stored_elaborate (items (run capacity ms')) \<le> sint (countelaborate (run capacity ms'))"
    by simp_all
  have "0 \<le> stored_prep_time (items (run capacity ms'))"
    using inv(1) nn by (intro stored_prep_time_nonneg) auto
  moreover have "0 \<le> stored_elaborate (items (run capacity ms'))"
    by (simp add: stored_elaborate_def)
  ultimately show ?thesis
    using inv(2,3) by (simp add: getPrepTimeSum_def elaborateDishCount_def ms'_def)
qed

theorem members_bound_stored_witness:
  "ordered_dishes [NewOrder dish1, NewOrder dish2, ReleaseDishesOfCuisineType ''AMERICAN'',
      ServeDish dish1, NewOrder dish3] = [dish1, dish2, dish3] \<and>
   stored_prep_time [dish1, dish2, dish3] = 125 \<and>
   stored_prep_time (items (run 10 [NewOrder dish1, NewOrder dish2,
      ReleaseDishesOfCuisineType ''AMERICAN'', ServeDish dish1])) = 0 \<and>
   sint (getPrepTimeSum (run 10 [NewOrder dish1, NewOrder dish2,
      ReleaseDishesOfCuisineType ''AMERICAN'', ServeDish dish1])) = 90 \<and>
   stored_elaborate (items (run 10 [NewOrder dish1, NewOrder dish2,
      ReleaseDishesOfCuisineType ''AMERICAN'', ServeDish dish1])) = 0 \<and>
   sint (elaborateDishCount (run 10 [NewOrder dish1, NewOrder dish2,
      ReleaseDishesOfCuisineType ''AMERICAN'', ServeDish dish1])) = 1"
proof -
  let ?ms = "[NewOrder dish1, NewOrder dish2, ReleaseDishesOfCuisineType ''AMERICAN'',
      ServeDish dish1, NewOrder dish3]"
  have od: "ordered_dishes ?ms = [dish1, dish2, dish3]" by simp
  have h1: "\<forall>d \<in> set (ordered_dishes ?ms). 0 \<le>s getPrepTime d"
    unfolding od by (simp add: dish1_def dish2_def dish3_def getPrepTime_def word_sle_eq)
  have sp: "stored_prep_time [dish1, dish2, dish3] = 125"
    by (simp add: stored_prep_time_def dish1_def dish2_def dish3_def getPrepTime_def)
  have h2: "stored_prep_time (ordered_dishes ?ms) < 2 ^ 31"
    unfolding od sp by simp
  have h3: "int (length (ordered_dishes ?ms)) < 2 ^ 31"
    unfolding od by simp
  have t: "take 4 ?ms = [NewOrder dish1, NewOrder dish2,
      ReleaseDishesOfCuisineType ''AMERICAN'', ServeDish dish1]"
    by simp
  have r: "run 10 [NewOrder dish1, NewOrder dish2,
      ReleaseDishesOfCuisineType ''AMERICAN'', ServeDish dish1] =
      \<lparr>items = [], totalprep_time = 90, countelaborate = 1\<rparr>"
    by code_simp
  have v: "stored_prep_time [] = 0" "stored_elaborate [] = 0"
    by (simp_all add: stored_prep_time_def stored_elaborate_def)
  show ?thesis
    using members_bound_stored [OF h1 h2 h3, of 10 4] od sp v
    unfolding t r by (simp add: getPrepTimeSum_def elaborateDishCount_def)
qed

text \<open>
  Without the bound the claim of C9 fails: two orders of \<open>2^30\<close> minutes each wrap the
  32-bit sum around to \<open>- 2^31\<close>.
\<close>

theorem members_negative_counterexample:
  "\<not> (0 \<le> sint (getPrepTimeSum (run 10
      [NewOrder \<lparr>name = ''a'', ingredients = [], prep_time = 1073741824, price = 1, cuisine_type = OTHER\<rparr>,
       NewOrder \<lparr>name = ''b'', ingredients = [], prep_time = 1073741824, price = 1, cuisine_type = OTHER\<rparr>])))"
  by code_simp



text \<open>
  What the loop of the release functions does right on a kitchen of distinct dishes: it
  removes exactly the qualifying dishes and counts them. It leaves both members as they
  were.
\<close>

lemma releaseDishesBelowPrepTime_removes:
  assumes "distinct (items k)" "0 <s t" "releaseDishesBelowPrepTime t k = (n, k')"
  shows "mset (items k') = filter_mset (\<lambda>d. \<not> getPrepTime d <s t) (mset (items k)) \<and>
         n = int (size (filter_mset (\<lambda>d. getPrepTime d <s t) (mset (items k)))) \<and>
         totalprep_time k' = totalprep_time k \<and> countelaborate k' = countelaborate k"
proof -
  obtain ys c where r: "release_loop (\<lambda>d. getPrepTime d <s t) (length (items k)) (items k) 0 = (ys, c)"
    by (cases "release_loop (\<lambda>d. getPrepTime d <s t) (length (items k)) (items k) 0")
  from assms(2) have "\<not> t <s 0" "t \<noteq> 0"
    by (auto simp: word_sless_alt)
  with r assms(3) have "n = c" "k' = k\<lparr>items := ys\<rparr>"
    by (simp_all add: releaseDishesBelowPrepTime_def)
  with release_loop_all [OF assms(1) r] show ?thesis by simp
qed

lemma releaseDishesOfCuisineType_removes:
  assumes "distinct (items k)" "c \<in> set cuisine_labels" "releaseDishesOfCuisineType c k = (n, k')"
  shows "mset (items k') = filter_mset (\<lambda>d. getCuisineType d \<noteq> c) (mset (items k)) \<and>
         n = int (size (filter_mset (\<lambda>d. getCuisineType d = c) (mset (items k)))) \<and>
         totalprep_time k' = totalprep_time k \<and> countelaborate k' = countelaborate k"
proof -
  obtain ys m where r: "release_loop (\<lambda>d. getCuisineType d = c) (length (items k)) (items k) 0 = (ys, m)"
    by (cases "release_loop (\<lambda>d. getCuisineType d = c) (length (items k)) (items k) 0")
  from assms(2) have "c \<noteq> ''ALL''" "match_cuisine c \<noteq> None"
    by (auto simp: match_cuisine_None cuisine_labels_def)
  with r assms(3) have "n = m" "k' = k\<lparr>items := ys\<rparr>"
    by (auto simp: releaseDishesOfCuisineType_def)
  with release_loop_all [OF assms(1) r] show ?thesis by simp
qed

text \<open>
  C1 at a failing input: after two orders and \<open>releaseDishesOfCuisineType("AMERICAN")\<close>
  the Spaghetti (20 minutes, not elaborate) is the only stored dish, yet
  \<open>getPrepTimeSum()\<close> is 110 and \<open>elaborateDishCount()\<close> is 1.
\<close>

theorem release_breaks_consistency:
  "items (run 10 [NewOrder dish1, NewOrder dish2, ReleaseDishesOfCuisineType ''AMERICAN'']) = [dish1] \<and>
   stored_prep_time [dish1] = 20 \<and>
   sint (getPrepTimeSum (run 10 [NewOrder dish1, NewOrder dish2, ReleaseDishesOfCuisineType ''AMERICAN''])) = 110 \<and>
   stored_elaborate [dish1] = 0 \<and>
   sint (elaborateDishCount (run 10 [NewOrder dish1, NewOrder dish2, ReleaseDishesOfCuisineType ''AMERICAN''])) = 1"
proof -
  have "run 10 [NewOrder dish1, NewOrder dish2, ReleaseDishesOfCuisineType ''AMERICAN''] =
      \<lparr>items = [dish1], totalprep_time = 110, countelaborate = 1\<rparr>"
    by code_simp
  moreover have "stored_prep_time [dish1] = 20" "stored_elaborate [dish1] = 0"
    by (simp_all add: stored_prep_time_def stored_elaborate_def elaborate_def dish1_def
        getPrepTime_def getIngredients_def)
  ultimately show ?thesis
    by (simp add: getPrepTimeSum_def elaborateDishCount_def)
qed

text \<open>Whatever the kitchen, removing all leaves both members as they were.\<close>

lemma release_all:
  "releaseDishesBelowPrepTime 0 k = (int (length (items k)), k\<lparr>items := []\<rparr>)"
  "releaseDishesOfCuisineType ''ALL'' k = (int (length (items k)), k\<lparr>items := []\<rparr>)"
  by (simp_all add: releaseDishesBelowPrepTime_def releaseDishesOfCuisineType_def
      ArrayBag_clear_def ArrayBag_getCurrentSize_def)

text \<open>
  C2 at a failing input: on the kitchen of \<open>test.cpp\<close>, \<open>releaseDishesBelowPrepTime(0)\<close>
  and \<open>releaseDishesOfCuisineType("ALL")\<close> remove all four dishes and return 4, and
  leave \<open>totalprep_time_\<close> at 155 and \<open>countelaborate\<close> at 1.
\<close>

theorem release_all_keeps_members:
  "releaseDishesBelowPrepTime 0 test_kitchen =
     (4, \<lparr>items = [], totalprep_time = 155, countelaborate = 1\<rparr>) \<and>
   releaseDishesOfCuisineType ''ALL'' test_kitchen =
     (4, \<lparr>items = [], totalprep_time = 155, countelaborate = 1\<rparr>)"
  by (simp add: test_kitchen_eq releaseDishesBelowPrepTime_def releaseDishesOfCuisineType_def
      ArrayBag_clear_def ArrayBag_getCurrentSize_def)

text \<open>
  C3 at a failing input: on dishes of 59, 60 and 61 minutes with \<open>totalprep_time_\<close> 180,
  \<open>releaseDishesBelowPrepTime(60)\<close> removes only the dish of 59 minutes and returns 1,
  and leaves \<open>totalprep_time_\<close> at 180, where \<open>serveDish\<close> of that dish leaves 121.
\<close>

theorem release_below_keeps_members:
  "releaseDishesBelowPrepTime 60
     \<lparr>items = [\<lparr>name = ''a'', ingredients = [], prep_time = 59, price = 1, cuisine_type = OTHER\<rparr>,
               \<lparr>name = ''b'', ingredients = [], prep_time = 60, price = 1, cuisine_type = OTHER\<rparr>,
               \<lparr>name = ''c'', ingredients = [], prep_time = 61, price = 1, cuisine_type = OTHER\<rparr>],
      totalprep_time = 180, countelaborate = 0\<rparr>
   = (1, \<lparr>items = [\<lparr>name = ''c'', ingredients = [], prep_time = 61, price = 1, cuisine_type = OTHER\<rparr>,
                    \<lparr>name = ''b'', ingredients = [], prep_time = 60, price = 1, cuisine_type = OTHER\<rparr>],
           totalprep_time = 180, countelaborate = 0\<rparr>) \<and>
   serveDish \<lparr>name = ''a'', ingredients = [], prep_time = 59, price = 1, cuisine_type = OTHER\<rparr>
     \<lparr>items = [\<lparr>name = ''a'', ingredients = [], prep_time = 59, price = 1, cuisine_type = OTHER\<rparr>,
               \<lparr>name = ''b'', ingredients = [], prep_time = 60, price = 1, cuisine_type = OTHER\<rparr>,
               \<lparr>name = ''c'', ingredients = [], prep_time = 61, price = 1, cuisine_type = OTHER\<rparr>],
      totalprep_time = 180, countelaborate = 0\<rparr>
   = (True, \<lparr>items = [\<lparr>name = ''c'', ingredients = [], prep_time = 61, price = 1, cuisine_type = OTHER\<rparr>,
                    \<lparr>name = ''b'', ingredients = [], prep_time = 60, price = 1, cuisine_type = OTHER\<rparr>],
           totalprep_time = 121, countelaborate = 0\<rparr>)"
  by code_simp

section \<open>Rounding to a double\<close>

lemma powi_nat: "0 \<le> b \<Longrightarrow> (2::rat) ^ nat b = 2 powi b"
  by (simp add: power_int_def)

lemma exponent2_bounds:
  assumes "x \<noteq> 0"
  shows "2 powi exponent2 x \<le> \<bar>x\<bar> \<and> \<bar>x\<bar> < 2 powi (exponent2 x + 1)"
proof -
  obtain p q where pq: "quotient_of \<bar>x\<bar> = (p, q)"
    by (cases "quotient_of \<bar>x\<bar>")
  then have q: "0 < q" and x: "\<bar>x\<bar> = of_int p / of_int q"
    by (simp_all add: quotient_of_denom_pos quotient_of_div)
  from assms have "0 < \<bar>x\<bar>" by simp
  with x q have p: "0 < p"
    by (simp add: zero_less_divide_iff)
  let ?d = "bitlen p - bitlen q"
  from bitlen_bounds [OF p] have pb: "(2::rat) ^ nat (bitlen p - 1) \<le> of_int p" "of_int p < (2::rat) ^ nat (bitlen p)"
    by (metis of_int_le_iff of_int_numeral of_int_power, metis of_int_less_iff of_int_numeral of_int_power)
  from bitlen_bounds [OF q] have qb: "(2::rat) ^ nat (bitlen q - 1) \<le> of_int q" "of_int q < (2::rat) ^ nat (bitlen q)"
    by (metis of_int_le_iff of_int_numeral of_int_power, metis of_int_less_iff of_int_numeral of_int_power)
  have bp: "1 \<le> bitlen p" and bq: "1 \<le> bitlen q"
    using p q by (simp_all add: bitlen_def floorlog_def)
  have pb': "2 powi (bitlen p - 1) \<le> (of_int p :: rat)" "(of_int p :: rat) < 2 powi bitlen p"
    using pb bp by (simp_all add: powi_nat)
  have qb': "2 powi (bitlen q - 1) \<le> (of_int q :: rat)" "(of_int q :: rat) < 2 powi bitlen q"
    using qb bq by (simp_all add: powi_nat)
  have qpos: "(0::rat) < of_int q" using q by simp
  have pos: "(0::rat) < 2 powi n" for n :: int
    by simp
  have up: "\<bar>x\<bar> < 2 powi (?d + 1)"
  proof -
    have "of_int p / of_int q < (2 powi bitlen p :: rat) / 2 powi (bitlen q - 1)"
      using pb'(2) qb'(1) p pos by (intro frac_less) simp_all
    also have "\<dots> = 2 powi (bitlen p - (bitlen q - 1))"
      by (rule power_int_diff [symmetric]) simp
    also have "bitlen p - (bitlen q - 1) = ?d + 1"
      by simp
    finally show ?thesis by (simp add: x)
  qed
  have lo: "2 powi (?d - 1) \<le> \<bar>x\<bar>"
  proof -
    have "(2 powi (?d - 1) :: rat) = 2 powi (bitlen p - 1 - bitlen q)"
      by (simp add: algebra_simps)
    also have "\<dots> = 2 powi (bitlen p - 1) / 2 powi bitlen q"
      by (rule power_int_diff) simp
    also have "\<dots> \<le> of_int p / of_int q"
      using pb'(1) qb'(2) qpos p by (intro frac_le) simp_all
    finally show ?thesis by (simp add: x)
  qed
  show ?thesis
  proof (cases "2 powi ?d \<le> \<bar>x\<bar>")
    case True
    with pq up show ?thesis by (simp add: exponent2_def)
  next
    case False
    with pq lo show ?thesis by (simp add: exponent2_def)
  qed
qed

lemma round_half_even_error: "\<bar>of_int (round_half_even y) - y\<bar> \<le> 1 / 2"
proof -
  have "of_int \<lfloor>y\<rfloor> \<le> y" "y < of_int \<lfloor>y\<rfloor> + 1"
    by linarith+
  then show ?thesis
    by (auto simp: round_half_even_def Let_def)
qed


lemma ulp_pos: "(0::rat) < 2 powi n"
  by simp

lemma to_double_error: "\<bar>to_double x - x\<bar> \<le> \<bar>x\<bar> / 2 ^ 53"
proof (cases "x = 0")
  case True
  then show ?thesis by (simp add: to_double_def)
next
  case False
  define u :: rat where "u = 2 powi (exponent2 x - 52)"
  have u: "0 < u" by (simp add: u_def)
  have td: "to_double x = of_int (round_half_even (x / u)) * u"
    using False by (simp add: to_double_def u_def Let_def)
  have "to_double x - x = (of_int (round_half_even (x / u)) - x / u) * u"
    using u by (simp add: td field_simps)
  then have "\<bar>to_double x - x\<bar> = \<bar>of_int (round_half_even (x / u)) - x / u\<bar> * u"
    using u by (simp add: abs_mult)
  also have "\<dots> \<le> 1 / 2 * u"
    using u round_half_even_error [of "x / u"] by (intro mult_right_mono) simp_all
  also have "1 / 2 * u = 2 powi exponent2 x / 2 ^ 53"
  proof -
    have "u = 2 powi exponent2 x / 2 powi 52"
      unfolding u_def by (rule power_int_diff) simp
    then show ?thesis by simp
  qed
  also have "\<dots> \<le> \<bar>x\<bar> / 2 ^ 53"
    using exponent2_bounds [OF False] by (intro divide_right_mono) simp_all
  finally show ?thesis .
qed





section \<open>Rounding to an integer\<close>

lemma std_round_unique:
  assumes "of_int r - 1 / 2 < x" "x < of_int r + 1 / 2"
  shows "std_round x = r"
proof (cases "0 \<le> x")
  case True
  have "\<lfloor>x + 1 / 2\<rfloor> = r"
    using assms by (intro floor_unique) simp_all
  with True show ?thesis by (simp add: std_round_def)
next
  case False
  have "\<lfloor>- x + 1 / 2\<rfloor> = - r"
    using assms by (intro floor_unique) simp_all
  with False show ?thesis by (simp add: std_round_def)
qed

lemma std_round_cases:
  obtains f where "0 \<le> x" "std_round x = f" "of_int f \<le> x + 1 / 2" "x + 1 / 2 < of_int f + 1"
  | f where "x < 0" "std_round x = - f" "of_int f \<le> - x + 1 / 2" "- x + 1 / 2 < of_int f + 1"
proof (cases "0 \<le> x")
  case True
  have "of_int \<lfloor>x + 1 / 2\<rfloor> \<le> x + 1 / 2" "x + 1 / 2 < of_int \<lfloor>x + 1 / 2\<rfloor> + 1"
    by linarith+
  moreover have "std_round x = \<lfloor>x + 1 / 2\<rfloor>"
    using True by (simp add: std_round_def)
  ultimately show ?thesis using True that(1) by blast
next
  case False
  have "of_int \<lfloor>- x + 1 / 2\<rfloor> \<le> - x + 1 / 2" "- x + 1 / 2 < of_int \<lfloor>- x + 1 / 2\<rfloor> + 1"
    by linarith+
  moreover have "std_round x = - \<lfloor>- x + 1 / 2\<rfloor>"
    using False by (simp add: std_round_def)
  ultimately show ?thesis using False that(2) by (meson not_le)
qed

lemma std_round_error: "\<bar>of_int (std_round x) - x\<bar> \<le> 1 / 2"
proof (cases x rule: std_round_cases)
  case (1 f)
  show ?thesis unfolding 1(2) using 1(3,4) by linarith
next
  case (2 f)
  show ?thesis unfolding 2(2) of_int_minus using 2(3,4) by linarith
qed


lemma std_round_of_int: "std_round (of_int m) = m"
  by (rule std_round_unique) simp_all

text \<open>An integer within less than \<open>1/2 + 1/(2n)\<close> of \<open>a/n\<close> is within \<open>1/2\<close> of it.\<close>

lemma near_fraction:
  fixes a K n :: int
  assumes n: "0 < n"
    and close: "\<bar>of_int K - of_int a / (of_int n :: rat)\<bar> < 1 / 2 + 1 / (2 * of_int n)"
  shows "\<bar>of_int K - of_int a / (of_int n :: rat)\<bar> \<le> 1 / 2"
proof -
  define D where "D = \<bar>K * n - a\<bar>"
  have n': "(0::rat) < of_int n" using n by simp
  have "of_int K - of_int a / (of_int n :: rat) = of_int (K * n - a) / of_int n"
    using n' by (simp add: field_simps)
  then have "\<bar>of_int K - of_int a / (of_int n :: rat)\<bar> = \<bar>of_int (K * n - a)\<bar> / \<bar>of_int n\<bar>"
    by (simp only: abs_divide)
  also have "\<dots> = of_int D / of_int n"
    using n' by (simp only: D_def of_int_abs abs_of_pos)
  finally have eq: "\<bar>of_int K - of_int a / (of_int n :: rat)\<bar> = of_int D / of_int n" .
  from close have "of_int D / (of_int n :: rat) < 1 / 2 + 1 / (2 * of_int n)"
    by (simp only: eq)
  then have "(of_int (2 * D) :: rat) < of_int (n + 1)"
    using n' by (simp add: field_simps)
  then have "2 * D < n + 1"
    by (simp only: of_int_less_iff)
  then have "2 * D \<le> n" by simp
  then have "(of_int (2 * D) :: rat) \<le> of_int n"
    by (simp only: of_int_le_iff)
  then have "of_int D / (of_int n :: rat) \<le> 1 / 2"
    using n' by (simp add: field_simps)
  then show ?thesis by (simp only: eq)
qed





lemma pct_round_near:
  fixes e n :: int
  assumes n: "0 < n" and e: "\<bar>e\<bar> \<le> 2 ^ 31"
  shows "\<bar>of_int (std_round (to_double (to_double (to_double (of_int e / of_int n) * 100) * 100))) -
           of_int (10000 * e) / (of_int n :: rat)\<bar> \<le> 1 / 2"
proof -
  define q :: rat where "q = of_int e / of_int n"
  define x1 where "x1 = to_double q"
  define x2 where "x2 = to_double (x1 * 100)"
  define x3 where "x3 = to_double (x2 * 100)"
  have n': "(0::rat) < of_int n" using n by simp
  have p53: "(2::rat) ^ 53 = 9007199254740992" by simp
  have "\<bar>x1 - q\<bar> \<le> \<bar>q\<bar> / 2 ^ 53"
    unfolding x1_def by (rule to_double_error)
  then have e1: "9007199254740992 * \<bar>x1 - q\<bar> \<le> \<bar>q\<bar>"
    unfolding p53 by (simp add: field_simps)
  have "\<bar>x2 - x1 * 100\<bar> \<le> \<bar>x1 * 100\<bar> / 2 ^ 53"
    unfolding x2_def by (rule to_double_error)
  then have e2: "9007199254740992 * \<bar>x2 - x1 * 100\<bar> \<le> 100 * \<bar>x1\<bar>"
    unfolding p53 by (simp add: field_simps abs_mult)
  have "\<bar>x3 - x2 * 100\<bar> \<le> \<bar>x2 * 100\<bar> / 2 ^ 53"
    unfolding x3_def by (rule to_double_error)
  then have e3: "9007199254740992 * \<bar>x3 - x2 * 100\<bar> \<le> 100 * \<bar>x2\<bar>"
    unfolding p53 by (simp add: field_simps abs_mult)
  have t1: "\<bar>x1\<bar> \<le> \<bar>q\<bar> + \<bar>x1 - q\<bar>"
    by linarith
  have t2: "\<bar>x2\<bar> \<le> 100 * \<bar>x1\<bar> + \<bar>x2 - x1 * 100\<bar>"
    by linarith
  have "x2 * 100 - 10000 * q = 100 * (x2 - x1 * 100) + 10000 * (x1 - q)"
    by simp
  then have "\<bar>x2 * 100 - 10000 * q\<bar> \<le> \<bar>100 * (x2 - x1 * 100)\<bar> + \<bar>10000 * (x1 - q)\<bar>"
    by (simp only: abs_triangle_ineq)
  then have s2: "\<bar>x2 * 100 - 10000 * q\<bar> \<le> 100 * \<bar>x2 - x1 * 100\<bar> + 10000 * \<bar>x1 - q\<bar>"
    by (simp only: abs_mult abs_numeral)
  have "\<bar>x3 - 10000 * q\<bar> \<le> \<bar>x3 - x2 * 100\<bar> + \<bar>x2 * 100 - 10000 * q\<bar>"
    by linarith
  also have "\<dots> \<le> \<bar>x3 - x2 * 100\<bar> + (100 * \<bar>x2 - x1 * 100\<bar> + 10000 * \<bar>x1 - q\<bar>)"
    using s2 by (rule add_left_mono)
  finally have t3: "\<bar>x3 - 10000 * q\<bar> \<le>
      \<bar>x3 - x2 * 100\<bar> + 100 * \<bar>x2 - x1 * 100\<bar> + 10000 * \<bar>x1 - q\<bar>"
    by (simp only: add.assoc)
  define a d1 d2 d3 a1 a2 g where "a = \<bar>q\<bar>" and "d1 = \<bar>x1 - q\<bar>"
    and "d2 = \<bar>x2 - x1 * 100\<bar>" and "d3 = \<bar>x3 - x2 * 100\<bar>"
    and "a1 = \<bar>x1\<bar>" and "a2 = \<bar>x2\<bar>" and "g = \<bar>x3 - 10000 * q\<bar>"
  have "0 \<le> a" by (simp add: a_def)
  moreover have "9007199254740992 * d1 \<le> a" "9007199254740992 * d2 \<le> 100 * a1"
    "9007199254740992 * d3 \<le> 100 * a2" "a1 \<le> a + d1" "a2 \<le> 100 * a1 + d2"
    "g \<le> d3 + 100 * d2 + 10000 * d1"
    using e1 e2 e3 t1 t2 t3 by (simp_all only: a_def d1_def d2_def d3_def a1_def a2_def g_def)
  ultimately have "9007199254740992 * g \<le> 40000 * a"
    by linarith
  then have "9007199254740992 * \<bar>x3 - 10000 * q\<bar> \<le> 40000 * \<bar>q\<bar>"
    by (simp only: a_def g_def)
  then have total: "\<bar>x3 - 10000 * q\<bar> \<le> 40000 * \<bar>q\<bar> / 2 ^ 53"
    unfolding p53 by (simp add: field_simps)
  have "\<bar>q\<bar> = of_int \<bar>e\<bar> / of_int n"
    using n' by (simp add: q_def)
  also have "\<dots> \<le> 2 ^ 31 / of_int n"
    using n' e by (intro divide_right_mono) simp_all
  finally have "40000 * \<bar>q\<bar> / 2 ^ 53 \<le> 40000 * (2 ^ 31 / of_int n) / 2 ^ 53"
    by (intro divide_right_mono mult_left_mono) simp_all
  also have "\<dots> < 1 / (2 * of_int n)"
    using n' by (simp add: field_simps)
  finally have err: "\<bar>x3 - 10000 * q\<bar> < 1 / (2 * of_int n)"
    using total by linarith
  have q10: "10000 * q = of_int (10000 * e) / of_int n"
    by (simp add: q_def)
  have "\<bar>of_int (std_round x3) - of_int (10000 * e) / (of_int n :: rat)\<bar> < 1 / 2 + 1 / (2 * of_int n)"
    using std_round_error [of x3] err unfolding q10 by linarith
  from near_fraction [OF n this] show ?thesis
    by (simp only: x3_def x2_def x1_def q_def)
qed








section \<open>The average and the percentage\<close>


lemma sint_32_range: "- (2 ^ 31) \<le> sint (w :: int32) \<and> sint w < 2 ^ 31"
  using sint_ge [of w] sint_lt [of w] by simp



lemma percentage_hundredths:
  assumes ne: "items k \<noteq> []"
  shows "\<exists>K. \<bar>rat_of_int K - of_int (sint (countelaborate k)) /
                 of_int (ArrayBag_getCurrentSize (items k)) * 100 * 100\<bar> \<le> 1 / 2 \<and>
           calculateElaboratePercentage k = to_double (of_int K / 100)"
proof -
  define n where "n = ArrayBag_getCurrentSize (items k)"
  define e where "e = sint (countelaborate k)"
  define K where "K = std_round (to_double (to_double (to_double (of_int e / of_int n) * 100) * 100))"
  have n: "0 < n" using ne by (simp add: n_def ArrayBag_getCurrentSize_def)
  have "\<bar>e\<bar> \<le> 2 ^ 31"
    using sint_32_range [of "countelaborate k"] unfolding e_def by linarith
  from pct_round_near [OF n this]
  have "\<bar>of_int K - of_int (10000 * e) / (of_int n :: rat)\<bar> \<le> 1 / 2"
    by (simp only: K_def)
  moreover have "of_int (10000 * e) / (of_int n :: rat) = of_int e / of_int n * 100 * 100"
    by simp
  moreover have "calculateElaboratePercentage k = to_double (of_int K / 100)"
    using n by (simp add: calculateElaboratePercentage_def n_def e_def K_def Let_def)
  ultimately show ?thesis
    unfolding e_def [symmetric] n_def [symmetric]
    by (intro exI [of _ K]) simp
qed










section \<open>The report\<close>

lemma digit_char_not_point: "d < 10 \<Longrightarrow> digit_char d \<noteq> CHR ''.''"
proof
  assume d: "d < 10" and eq: "digit_char d = CHR ''.''"
  have "of_char (digit_char d) = (48 + d :: nat)"
    using d by (simp add: digit_char_def)
  with eq show False by simp
qed

lemma show_nat_digits: "set (show_nat n) \<subseteq> digit_char ` {..<10}"
proof (induction n rule: show_nat.induct)
  case (1 n)
  show ?case
  proof (cases "n < 10")
    case True
    then show ?thesis by (subst show_nat.simps) simp
  next
    case False
    have "n mod 10 < 10" by simp
    with False 1 show ?thesis by (subst show_nat.simps) auto
  qed
qed

lemma show_nat_no_point: "CHR ''.'' \<notin> set (show_nat n)"
  using show_nat_digits [of n] digit_char_not_point by fastforce

text \<open>
  C8: \<open>kitchenReport\<close> takes the kitchen and returns only text. The text is one line
  \<open>LABEL: count\<close> per label, in the order ITALIAN, MEXICAN, CHINESE, INDIAN, AMERICAN,
  FRENCH, OTHER, each count that of \<open>tallyCuisineTypes\<close>; then an empty line; then
  \<open>AVERAGE PREP TIME: \<close> with \<open>calculateAvgPrepTime()\<close>; then \<open>ELABORATE: \<close> with
  \<open>calculateElaboratePercentage()\<close> and \<open>%\<close>, where the percentage has a point followed
  by exactly two digits.
\<close>

theorem kitchenReport_text:
  "kitchenReport k =
     concat (map (\<lambda>label. label @ '': '' @ show_int (tallyCuisineTypes label k) @ ''\<newline>'')
       cuisine_labels) @
     ''\<newline>'' @
     ''AVERAGE PREP TIME: '' @ show_int (sint (calculateAvgPrepTime k)) @ ''\<newline>'' @
     ''ELABORATE: '' @ show_fixed2 (calculateElaboratePercentage k) @ ''%'' @ ''\<newline>'' \<and>
   (\<exists>w d1 d2. show_fixed2 (calculateElaboratePercentage k) = w @ ''.'' @ [digit_char d1, digit_char d2] \<and>
      d1 < 10 \<and> d2 < 10 \<and> CHR ''.'' \<notin> set w)"
proof
  show "kitchenReport k =
     concat (map (\<lambda>label. label @ '': '' @ show_int (tallyCuisineTypes label k) @ ''\<newline>'')
       cuisine_labels) @
     ''\<newline>'' @
     ''AVERAGE PREP TIME: '' @ show_int (sint (calculateAvgPrepTime k)) @ ''\<newline>'' @
     ''ELABORATE: '' @ show_fixed2 (calculateElaboratePercentage k) @ ''%'' @ ''\<newline>''"
    by (simp add: kitchenReport_def cuisine_labels_def endl_def Let_def)
next
  define x where "x = calculateElaboratePercentage k"
  define c where "c = nat (round_half_even (\<bar>x\<bar> * 100))"
  define w where "w = (if x < 0 then ''-'' else []) @ show_nat (c div 100)"
  have "show_fixed2 x = w @ ''.'' @ [digit_char (c mod 100 div 10), digit_char (c mod 10)]"
    by (simp add: show_fixed2_def c_def w_def Let_def)
  moreover have "c mod 100 div 10 < 10" "c mod 10 < 10"
    by simp_all
  moreover have "CHR ''.'' \<notin> set w"
    by (simp add: w_def show_nat_no_point)
  ultimately show "\<exists>w d1 d2. show_fixed2 (calculateElaboratePercentage k) =
      w @ ''.'' @ [digit_char d1, digit_char d2] \<and> d1 < 10 \<and> d2 < 10 \<and> CHR ''.'' \<notin> set w"
    unfolding x_def by blast
qed

text \<open>The output of \<open>test.cpp\<close>.\<close>

lemma kitchenReport_test:
  "kitchenReport test_kitchen =
     ''ITALIAN: 2\<newline>MEXICAN: 1\<newline>CHINESE: 0\<newline>INDIAN: 0\<newline>AMERICAN: 1\<newline>FRENCH: 0\<newline>OTHER: 0\<newline>\<newline>AVERAGE PREP TIME: 39\<newline>ELABORATE: 25.00%\<newline>''"
  by code_simp

lemma round_half_even_unique:
  assumes "\<bar>x - of_int m\<bar> < 1 / 2"
  shows "round_half_even x = m"
proof -
  from assms have lo: "of_int m - 1 / 2 < x" and hi: "x < of_int m + 1 / 2"
    by linarith+
  show ?thesis
  proof (cases "of_int m \<le> x")
    case True
    have "\<lfloor>x\<rfloor> = m"
      using True hi by (intro floor_unique) linarith+
    moreover have "x - of_int m < 1 / 2"
      using hi by linarith
    ultimately show ?thesis
      by (simp add: round_half_even_def)
  next
    case False
    have "of_int m - 1 \<le> x" "x < of_int m - 1 + 1"
      using False lo by linarith+
    then have "of_int (m - 1) \<le> x" "x < of_int (m - 1) + 1"
      by (simp_all only: of_int_diff of_int_1)
    then have f: "\<lfloor>x\<rfloor> = m - 1"
      by (rule floor_unique)
    have "1 / 2 < x - (of_int m - 1)"
      using lo by linarith
    then have "1 / 2 < x - of_int (m - 1)"
      by (simp only: of_int_diff of_int_1)
    then show ?thesis
      by (simp add: round_half_even_def f)
  qed
qed

lemma to_double_close:
  obtains d where "to_double x = x + d" "9007199254740992 * d \<le> \<bar>x\<bar>"
    "- \<bar>x\<bar> \<le> 9007199254740992 * d"
proof -
  define d where "d = to_double x - x"
  define a where "a = \<bar>d\<bar>"
  define b where "b = \<bar>x\<bar>"
  have p53: "(2::rat) ^ 53 = 9007199254740992" by simp
  have "a \<le> b / 2 ^ 53"
    unfolding a_def b_def d_def by (rule to_double_error)
  then have "9007199254740992 * a \<le> b"
    unfolding p53 by (simp add: field_simps)
  moreover have "d \<le> a" "- a \<le> d"
    by (simp_all add: a_def)
  ultimately have "9007199254740992 * d \<le> b" "- b \<le> 9007199254740992 * d"
    by linarith+
  moreover have "to_double x = x + d"
    by (simp add: d_def)
  ultimately show ?thesis
    unfolding b_def by (rule that [rotated])
qed

lemma to_double_negative: "to_double x < 0 \<longleftrightarrow> x < 0"
proof -
  obtain d where d: "to_double x = x + d" "9007199254740992 * d \<le> \<bar>x\<bar>"
    "- \<bar>x\<bar> \<le> 9007199254740992 * d"
    by (rule to_double_close)
  show ?thesis
  proof (cases "x < 0")
    case True
    then have "\<bar>x\<bar> = - x" by simp
    with d True show ?thesis by linarith
  next
    case False
    then have "\<bar>x\<bar> = x" by simp
    with d False show ?thesis by linarith
  qed
qed

text \<open>
  The double nearest to \<open>K / 100\<close> prints, with two digits after the point, as
  \<open>K / 100\<close> itself.
\<close>

lemma show_fixed2_hundredths:
  assumes "\<bar>K\<bar> < 2 ^ 52"
  shows "show_fixed2 (to_double (of_int K / 100)) =
     (if K < 0 then ''-'' else []) @ show_nat (nat \<bar>K\<bar> div 100) @ ''.'' @
     [digit_char (nat \<bar>K\<bar> mod 100 div 10), digit_char (nat \<bar>K\<bar> mod 10)]"
proof -
  define y :: rat where "y = of_int K / 100"
  define t where "t = to_double y"
  obtain d where d: "t = y + d" "9007199254740992 * d \<le> \<bar>y\<bar>"
    "- \<bar>y\<bar> \<le> 9007199254740992 * d"
    unfolding t_def by (rule to_double_close)
  have neg: "t < 0 \<longleftrightarrow> K < 0"
    unfolding t_def to_double_negative by (simp add: y_def)
  define r where "r = rat_of_int \<bar>K\<bar>"
  have r: "r < 4503599627370496"
    using assms unfolding r_def by (simp del: of_int_abs)
  have r0: "0 \<le> r" by (simp add: r_def)
  have y: "\<bar>y\<bar> * 100 = r"
    by (simp add: y_def r_def)
  have "\<bar>t\<bar> * 100 - r < 1 / 2 \<and> - (1 / 2) < \<bar>t\<bar> * 100 - r"
  proof (cases "K < 0")
    case True
    then have "\<bar>y\<bar> = - y" "\<bar>t\<bar> = - t"
      using neg by (simp_all add: y_def)
    with d y r r0 show ?thesis by linarith
  next
    case False
    then have "\<bar>y\<bar> = y" "\<bar>t\<bar> = t"
      using neg by (simp_all add: y_def)
    with d y r r0 show ?thesis by linarith
  qed
  then have "\<bar>\<bar>t\<bar> * 100 - rat_of_int \<bar>K\<bar>\<bar> < 1 / 2"
    unfolding r_def by linarith
  then have "round_half_even (\<bar>t\<bar> * 100) = \<bar>K\<bar>"
    by (rule round_half_even_unique)
  with neg show ?thesis
    by (simp add: show_fixed2_def t_def [symmetric] y_def [symmetric] Let_def)
qed

lemma percentage_printed:
  assumes "items k \<noteq> []"
  shows "\<exists>K. \<bar>rat_of_int K - of_int (sint (elaborateDishCount k)) /
                 of_int (ArrayBag_getCurrentSize (items k)) * 100 * 100\<bar> \<le> 1 / 2 \<and>
           show_fixed2 (calculateElaboratePercentage k) =
             (if K < 0 then ''-'' else []) @ show_nat (nat \<bar>K\<bar> div 100) @ ''.'' @
             [digit_char (nat \<bar>K\<bar> mod 100 div 10), digit_char (nat \<bar>K\<bar> mod 10)]"
proof -
  define n where "n = ArrayBag_getCurrentSize (items k)"
  define e where "e = sint (elaborateDishCount k)"
  from percentage_hundredths [OF assms]
  obtain K where K: "\<bar>rat_of_int K - of_int e / of_int n * 100 * 100\<bar> \<le> 1 / 2"
    "calculateElaboratePercentage k = to_double (of_int K / 100)"
    unfolding n_def e_def elaborateDishCount_def by blast
  have n: "1 \<le> n" using assms by (cases "items k") (simp_all add: n_def ArrayBag_getCurrentSize_def)
  have e: "\<bar>e\<bar> \<le> 2 ^ 31"
    using sint_32_range [of "elaborateDishCount k"] unfolding e_def by linarith
  define q :: rat where "q = of_int e / of_int n"
  have "\<bar>q\<bar> = of_int \<bar>e\<bar> / of_int n"
    using n by (simp add: q_def)
  also have "\<dots> \<le> of_int \<bar>e\<bar> / 1"
    using n by (intro divide_left_mono) simp_all
  also have "\<dots> \<le> 2 ^ 31"
    using e by (simp del: of_int_abs)
  finally have q: "\<bar>q\<bar> \<le> 2147483648" by simp
  define r where "r = rat_of_int K"
  have "\<bar>r - q * 100 * 100\<bar> \<le> 1 / 2"
    using K(1) by (simp only: r_def q_def)
  then have "r - q * 100 * 100 \<le> 1 / 2" "- (1 / 2) \<le> r - q * 100 * 100"
    by linarith+
  moreover have "q \<le> 2147483648" "- 2147483648 \<le> q"
    using q by linarith+
  ultimately have "r < 4503599627370496" "- 4503599627370496 < r"
    by linarith+
  then have "K < 4503599627370496" "- 4503599627370496 < K"
    by (simp_all add: r_def)
  then have "\<bar>K\<bar> < 2 ^ 52" by simp
  from show_fixed2_hundredths [OF this] K show ?thesis
    unfolding n_def e_def by (intro exI [of _ K]) simp
qed

end
